theory Spec2Isabelle
  imports Main "HOL-Library.Multiset"
begin

section \<open>The user store (users_store.go)\<close>

text \<open>
  A \<^verbatim>\<open>User\<close> is the Go struct of the same name. Go's \<^verbatim>\<open>int\<close> has 64 bits on the
  platforms Go servers run on (\<^verbatim>\<open>strconv.IntSize\<close>). A value of that type is an
  \<^typ>\<open>int\<close> between \<open>minInt\<close> and \<open>maxInt\<close>, and arithmetic that leaves the range
  wraps around, as the Go specification has it: the increment \<^verbatim>\<open>s.nextID++\<close> is
  \<open>wrap64 (nextID s + 1)\<close>. A \<^verbatim>\<open>time.Time\<close> is an abstract instant.
\<close>

definition maxInt :: int where
  "maxInt = 2 ^ 63 - 1"

definition minInt :: int where
  "minInt = - (2 ^ 63)"

definition wrap64 :: "int \<Rightarrow> int" where
  "wrap64 x = (x + 2 ^ 63) mod 2 ^ 64 - 2 ^ 63"

type_synonym time = nat

record User =
  ID :: int
  Name :: string
  CreatedAt :: time

text \<open>The zero value \<^verbatim>\<open>User{}\<close>.\<close>

definition zeroUser :: User where
  "zeroUser = \<lparr>ID = 0, Name = [], CreatedAt = 0\<rparr>"

text \<open>
  \<^verbatim>\<open>UserStore\<close>: the mutex is not a field of the model. Every method holds it from entry
  to return, so the methods are atomic and a concurrent execution is a sequence of calls
  in the order in which they took the lock.
\<close>

record UserStore =
  nextID :: int
  items :: "int \<rightharpoonup> User"

definition NewUserStore :: UserStore where
  "NewUserStore = \<lparr>nextID = 1, items = Map.empty\<rparr>"

text \<open>\<^verbatim>\<open>Create\<close> reads the clock; the instant it reads is the argument \<open>now\<close>.\<close>

definition Create :: "UserStore \<Rightarrow> string \<Rightarrow> time \<Rightarrow> User \<times> UserStore" where
  "Create s name now =
     (let u = \<lparr>ID = nextID s, Name = name, CreatedAt = now\<rparr>;
          s1 = s\<lparr>items := (items s)(ID u \<mapsto> u)\<rparr>;
          s2 = s1\<lparr>nextID := wrap64 (nextID s1 + 1)\<rparr>
      in (u, s2))"

definition Get :: "UserStore \<Rightarrow> int \<Rightarrow> (User \<times> bool) \<times> UserStore" where
  "Get s id' =
     (case items s id' of
        Some u \<Rightarrow> ((u, True), s)
      | None \<Rightarrow> ((zeroUser, False), s))"

definition Delete :: "UserStore \<Rightarrow> int \<Rightarrow> bool \<times> UserStore" where
  "Delete s id' =
     (case items s id' of
        None \<Rightarrow> (False, s)
      | Some _ \<Rightarrow> (True, s\<lparr>items := (items s)(id' := None)\<rparr>))"

text \<open>
  Go leaves the order in which \<^verbatim>\<open>range\<close> visits a map unspecified. The order of one
  iteration is the argument \<open>ks\<close> of \<^verbatim>\<open>List\<close>: any list that holds every key of the map
  once.
\<close>

definition range_order :: "('k \<rightharpoonup> 'v) \<Rightarrow> 'k list \<Rightarrow> bool" where
  "range_order m ks \<longleftrightarrow> distinct ks \<and> set ks = dom m"

fun range_append :: "(int \<rightharpoonup> User) \<Rightarrow> User list \<Rightarrow> int list \<Rightarrow> User list" where
  "range_append m out [] = out"
| "range_append m out (k # ks) =
     (case m k of
        Some u \<Rightarrow> range_append m (out @ [u]) ks
      | None \<Rightarrow> range_append m out ks)"

definition List :: "UserStore \<Rightarrow> int list \<Rightarrow> User list \<times> UserStore" where
  "List s ks = (range_append (items s) [] ks, s)"

subsection \<open>Sequences of store calls\<close>

datatype op = OpCreate string time | OpGet int | OpDelete int | OpList "int list"

datatype result = RCreate User | RGet User bool | RDelete bool | RList "User list"

fun exec_op :: "UserStore \<Rightarrow> op \<Rightarrow> result \<times> UserStore" where
  "exec_op s (OpCreate name now) = (case Create s name now of (u, s') \<Rightarrow> (RCreate u, s'))"
| "exec_op s (OpGet id') = (case Get s id' of ((u, ok), s') \<Rightarrow> (RGet u ok, s'))"
| "exec_op s (OpDelete id') = (case Delete s id' of (ok, s') \<Rightarrow> (RDelete ok, s'))"
| "exec_op s (OpList ks) = (case List s ks of (out, s') \<Rightarrow> (RList out, s'))"

fun exec :: "UserStore \<Rightarrow> op list \<Rightarrow> result list \<times> UserStore" where
  "exec s [] = ([], s)"
| "exec s (c # cs) =
     (case exec_op s c of (r, s') \<Rightarrow>
        (case exec s' cs of (rs, s'') \<Rightarrow> (r # rs, s'')))"

text \<open>The ids that the calls of \<^verbatim>\<open>Create\<close> returned, in call order.\<close>

fun created_ids :: "result list \<Rightarrow> int list" where
  "created_ids [] = []"
| "created_ids (RCreate u # rs) = ID u # created_ids rs"
| "created_ids (_ # rs) = created_ids rs"

fun is_create :: "op \<Rightarrow> bool" where
  "is_create (OpCreate _ _) = True"
| "is_create _ = False"

fun is_delete :: "op \<Rightarrow> bool" where
  "is_delete (OpDelete _) = True"
| "is_delete _ = False"

section \<open>Library functions on strings (strings, strconv)\<close>

text \<open>
  A Go \<^verbatim>\<open>string\<close> is a sequence of bytes; so is a \<^typ>\<open>string\<close>, whose characters are
  bytes. The functions of this section are those of the Go standard library that the
  handlers call, written from the library's documentation.
\<close>

subsection \<open>strings.TrimSpace\<close>

text \<open>
  \<^verbatim>\<open>unicode.IsSpace\<close> holds of the code points U+0009 to U+000D, U+0020, U+0085, U+00A0,
  U+1680, U+2000 to U+200A, U+2028, U+2029, U+202F, U+205F and U+3000. These are their
  UTF-8 encodings. No other byte sequence decodes to one of them: an overlong or
  truncated encoding decodes to \<^verbatim>\<open>utf8.RuneError\<close>, which is not white space.
\<close>

definition space_runes :: "string list" where
  "space_runes =
     [[CHR 0x09], [CHR 0x0A], [CHR 0x0B], [CHR 0x0C], [CHR 0x0D], [CHR 0x20],
      [CHR 0xC2, CHR 0x85], [CHR 0xC2, CHR 0xA0],
      [CHR 0xE1, CHR 0x9A, CHR 0x80],
      [CHR 0xE2, CHR 0x80, CHR 0x80], [CHR 0xE2, CHR 0x80, CHR 0x81],
      [CHR 0xE2, CHR 0x80, CHR 0x82], [CHR 0xE2, CHR 0x80, CHR 0x83],
      [CHR 0xE2, CHR 0x80, CHR 0x84], [CHR 0xE2, CHR 0x80, CHR 0x85],
      [CHR 0xE2, CHR 0x80, CHR 0x86], [CHR 0xE2, CHR 0x80, CHR 0x87],
      [CHR 0xE2, CHR 0x80, CHR 0x88], [CHR 0xE2, CHR 0x80, CHR 0x89],
      [CHR 0xE2, CHR 0x80, CHR 0x8A],
      [CHR 0xE2, CHR 0x80, CHR 0xA8], [CHR 0xE2, CHR 0x80, CHR 0xA9],
      [CHR 0xE2, CHR 0x80, CHR 0xAF],
      [CHR 0xE2, CHR 0x81, CHR 0x9F],
      [CHR 0xE3, CHR 0x80, CHR 0x80]]"

text \<open>
  The white space rune that a string begins with, if it begins with one
  (\<^verbatim>\<open>utf8.DecodeRuneInString\<close> followed by \<^verbatim>\<open>unicode.IsSpace\<close>).
\<close>

definition leading_space :: "string \<Rightarrow> string option" where
  "leading_space s = find (\<lambda>w. take (length w) s = w) space_runes"

text \<open>
  The white space rune that a string ends with (\<^verbatim>\<open>utf8.DecodeLastRuneInString\<close>): the
  last bytes of the string, from the last byte that starts a rune, are the encoding.
\<close>

definition trailing_space :: "string \<Rightarrow> string option" where
  "trailing_space s = find (\<lambda>w. length w \<le> length s \<and> drop (length s - length w) s = w) space_runes"

function TrimLeftSpace :: "string \<Rightarrow> string" where
  "TrimLeftSpace s =
     (case leading_space s of
        None \<Rightarrow> s
      | Some w \<Rightarrow> if w = [] then s else TrimLeftSpace (drop (length w) s))"
  by pat_completeness auto
termination
proof (relation "measure length")
  fix s w
  assume "leading_space s = Some w" and "w \<noteq> []"
  then have "take (length w) s = w"
    unfolding leading_space_def by (auto dest: find_Some_iff [THEN iffD1])
  with \<open>w \<noteq> []\<close> have "s \<noteq> []" by auto
  with \<open>w \<noteq> []\<close> show "(drop (length w) s, s) \<in> measure length" by simp
qed simp

function TrimRightSpace :: "string \<Rightarrow> string" where
  "TrimRightSpace s =
     (case trailing_space s of
        None \<Rightarrow> s
      | Some w \<Rightarrow> if w = [] then s else TrimRightSpace (take (length s - length w) s))"
  by pat_completeness auto
termination
proof (relation "measure length")
  fix s w
  assume "trailing_space s = Some w" and "w \<noteq> []"
  then have "length w \<le> length s"
    unfolding trailing_space_def by (auto dest: find_Some_iff [THEN iffD1])
  with \<open>w \<noteq> []\<close> have "s \<noteq> []" by auto
  with \<open>w \<noteq> []\<close> show "(take (length s - length w) s, s) \<in> measure length" by simp
qed simp

declare TrimLeftSpace.simps [simp del] TrimRightSpace.simps [simp del]

text \<open>\<^verbatim>\<open>TrimSpace\<close> trims on the left, then on the right of what is left.\<close>

definition TrimSpace :: "string \<Rightarrow> string" where
  "TrimSpace s = TrimRightSpace (TrimLeftSpace s)"

subsection \<open>strings.Trim, strings.Split, strings.Join\<close>

text \<open>
  \<^verbatim>\<open>strings.Trim(s, cutset)\<close> for a cutset of ASCII bytes: the bytes of the cutset are
  removed from both ends.
\<close>

definition Trim :: "string \<Rightarrow> string \<Rightarrow> string" where
  "Trim s cutset =
     rev (dropWhile (\<lambda>c. c \<in> set cutset) (rev (dropWhile (\<lambda>c. c \<in> set cutset) s)))"

text \<open>
  \<^verbatim>\<open>strings.Split(s, sep)\<close> for a separator of one byte: the pieces of \<open>s\<close> between the
  separators, one piece more than there are separators.
\<close>

fun Split :: "string \<Rightarrow> char \<Rightarrow> string list" where
  "Split [] sep = [[]]"
| "Split (c # cs) sep =
     (if c = sep then [] # Split cs sep
      else (case Split cs sep of
              [] \<Rightarrow> [[c]]
            | p # ps \<Rightarrow> (c # p) # ps))"

fun Join :: "string list \<Rightarrow> string \<Rightarrow> string" where
  "Join [] sep = []"
| "Join [x] sep = x"
| "Join (x # xs) sep = x @ sep @ Join xs sep"

subsection \<open>strconv.Atoi\<close>

datatype NumError = ErrSyntax | ErrRange

definition isDigit :: "char \<Rightarrow> bool" where
  "isDigit c \<longleftrightarrow> 48 \<le> (of_char c :: nat) \<and> (of_char c :: nat) \<le> 57"

definition digitVal :: "char \<Rightarrow> nat" where
  "digitVal c = of_char c - 48"

text \<open>
  The loop of \<^verbatim>\<open>strconv.ParseUint\<close> in base 10 on 64 bits: it stops with a syntax error
  at the first byte that is not a digit, with a range error as soon as the value leaves
  \<^verbatim>\<open>uint64\<close>.
\<close>

definition maxUint64 :: nat where
  "maxUint64 = 2 ^ 64 - 1"

fun ParseUint_loop :: "nat \<Rightarrow> string \<Rightarrow> NumError + nat" where
  "ParseUint_loop n [] = Inr n"
| "ParseUint_loop n (c # cs) =
     (if \<not> isDigit c then Inl ErrSyntax
      else if 10 * n + digitVal c > maxUint64 then Inl ErrRange
      else ParseUint_loop (10 * n + digitVal c) cs)"

definition ParseUint :: "string \<Rightarrow> NumError + nat" where
  "ParseUint s = (if s = [] then Inl ErrSyntax else ParseUint_loop 0 s)"

text \<open>
  \<^verbatim>\<open>strconv.Atoi\<close>, which is \<^verbatim>\<open>ParseInt(s, 10, 0)\<close>: an optional sign, then
  \<^verbatim>\<open>ParseUint\<close>, then the range of \<^verbatim>\<open>int\<close>.
\<close>

definition Atoi :: "string \<Rightarrow> NumError + int" where
  "Atoi s =
     (if s = [] then Inl ErrSyntax
      else
        let neg = (hd s = CHR ''-'');
            s1 = (if hd s = CHR ''+'' \<or> hd s = CHR ''-'' then tl s else s)
        in case ParseUint s1 of
             Inl e \<Rightarrow> Inl e
           | Inr un \<Rightarrow>
               if \<not> neg \<and> int un \<ge> maxInt + 1 then Inl ErrRange
               else if neg \<and> int un > maxInt + 1 then Inl ErrRange
               else Inr (if neg then - int un else int un))"

subsection \<open>Decimal numerals\<close>

text \<open>
  The decimal form of a natural number, as \<^verbatim>\<open>strconv.Itoa\<close> writes it, and the ASCII white
  space of \<^verbatim>\<open>strings.TrimSpace\<close>. The handlers call neither; the statements about
  \<^verbatim>\<open>parsePositiveInt\<close> are written with them.
\<close>

definition digitChar :: "nat \<Rightarrow> char" where
  "digitChar d = ''0123456789'' ! d"

fun decimal :: "nat \<Rightarrow> string" where
  "decimal n = (if n < 10 then [digitChar n] else decimal (n div 10) @ [digitChar (n mod 10)])"

declare decimal.simps [simp del]

definition asciiSpace :: "char \<Rightarrow> bool" where
  "asciiSpace c \<longleftrightarrow> c \<in> set [CHR 0x09, CHR 0x0A, CHR 0x0B, CHR 0x0C, CHR 0x0D, CHR 0x20]"

section \<open>Reading a JSON body (net/http, encoding/json)\<close>

text \<open>
  \<^verbatim>\<open>readJSON\<close> wraps the body in \<^verbatim>\<open>http.MaxBytesReader\<close>, and decodes it with a
  \<^verbatim>\<open>json.Decoder\<close> that disallows unknown fields. This section writes out what these
  library calls do with the bytes of a body, after the library's documentation.
\<close>

subsection \<open>JSON values\<close>

datatype jvalue =
    JNull
  | JBool bool
  | JNumber string
  | JString string
  | JArray "jvalue list"
  | JObject "(string \<times> jvalue) list"

text \<open>
  The errors that \<^verbatim>\<open>readJSON\<close> can return: those of the reader and of the decoder, and
  its own \<^verbatim>\<open>errors.New\<close>. A \<^verbatim>\<open>json.UnmarshalTypeError\<close> carries the kind of the JSON value
  that did not fit, the error for an unknown field the name of the field.
\<close>

datatype decode_error =
    io_EOF
  | io_ErrUnexpectedEOF
  | http_MaxBytesError
  | json_SyntaxError
  | json_UnmarshalTypeError string
  | json_UnknownField string
  | errors_New string

subsection \<open>Unquoting a string literal\<close>

definition hexVal :: "char \<Rightarrow> nat option" where
  "hexVal c =
     (let n = (of_char c :: nat) in
      if 48 \<le> n \<and> n \<le> 57 then Some (n - 48)
      else if 97 \<le> n \<and> n \<le> 102 then Some (n - 87)
      else if 65 \<le> n \<and> n \<le> 70 then Some (n - 55)
      else None)"

text \<open>\<^verbatim>\<open>getu4\<close>: the code unit of an escape \<^verbatim>\<open>\uXXXX\<close> that the bytes begin with.\<close>

definition getu4 :: "string \<Rightarrow> nat option" where
  "getu4 s =
     (case s of
        b # u # h1 # h2 # h3 # h4 # _ \<Rightarrow>
          if b = CHR 0x5C \<and> u = CHR ''u'' then
            (case (hexVal h1, hexVal h2, hexVal h3, hexVal h4) of
               (Some a, Some b, Some c, Some d) \<Rightarrow> Some (((a * 16 + b) * 16 + c) * 16 + d)
             | _ \<Rightarrow> None)
          else None
      | _ \<Rightarrow> None)"

text \<open>\<^verbatim>\<open>utf8.EncodeRune\<close> of a code point that is not a surrogate.\<close>

definition EncodeRune :: "nat \<Rightarrow> string" where
  "EncodeRune r =
     (if r < 0x80 then [char_of r]
      else if r < 0x800 then [char_of (0xC0 + r div 64), char_of (0x80 + r mod 64)]
      else if r < 0x10000 then
        [char_of (0xE0 + r div 4096), char_of (0x80 + (r div 64) mod 64),
         char_of (0x80 + r mod 64)]
      else
        [char_of (0xF0 + r div 262144), char_of (0x80 + (r div 4096) mod 64),
         char_of (0x80 + (r div 64) mod 64), char_of (0x80 + r mod 64)])"

definition ReplacementChar :: nat where
  "ReplacementChar = 0xFFFD"

definition IsSurrogate :: "nat \<Rightarrow> bool" where
  "IsSurrogate r \<longleftrightarrow> 0xD800 \<le> r \<and> r < 0xE000"

text \<open>\<^verbatim>\<open>utf16.DecodeRune\<close>: the code point of a surrogate pair, U+FFFD when it is not one.\<close>

definition utf16_DecodeRune :: "nat \<Rightarrow> nat option \<Rightarrow> nat" where
  "utf16_DecodeRune r1 r2 =
     (case r2 of
        Some r2' \<Rightarrow>
          if 0xD800 \<le> r1 \<and> r1 < 0xDC00 \<and> 0xDC00 \<le> r2' \<and> r2' < 0xE000
          then (r1 - 0xD800) * 1024 + (r2' - 0xDC00) + 0x10000
          else ReplacementChar
      | None \<Rightarrow> ReplacementChar)"

definition cont :: "nat \<Rightarrow> nat \<Rightarrow> char \<Rightarrow> bool" where
  "cont lo hi c \<longleftrightarrow> lo \<le> (of_char c :: nat) \<and> (of_char c :: nat) \<le> hi"

text \<open>
  \<^verbatim>\<open>utf8.DecodeRune\<close>: the number of bytes of the well-formed encoding that the bytes
  begin with, 0 when they begin with none.
\<close>

definition utf8_width :: "string \<Rightarrow> nat" where
  "utf8_width s =
     (case s of
        [] \<Rightarrow> 0
      | c # t \<Rightarrow>
          let n = (of_char c :: nat) in
          if n < 0x80 then 1
          else if 0xC2 \<le> n \<and> n \<le> 0xDF then
            (case t of c1 # _ \<Rightarrow> if cont 0x80 0xBF c1 then 2 else 0 | _ \<Rightarrow> 0)
          else if 0xE0 \<le> n \<and> n \<le> 0xEF then
            (case t of
               c1 # c2 # _ \<Rightarrow>
                 if cont (if n = 0xE0 then 0xA0 else 0x80) (if n = 0xED then 0x9F else 0xBF) c1
                    \<and> cont 0x80 0xBF c2
                 then 3 else 0
             | _ \<Rightarrow> 0)
          else if 0xF0 \<le> n \<and> n \<le> 0xF4 then
            (case t of
               c1 # c2 # c3 # _ \<Rightarrow>
                 if cont (if n = 0xF0 then 0x90 else 0x80) (if n = 0xF4 then 0x8F else 0xBF) c1
                    \<and> cont 0x80 0xBF c2 \<and> cont 0x80 0xBF c3
                 then 4 else 0
             | _ \<Rightarrow> 0)
          else 0)"

text \<open>
  \<^verbatim>\<open>unquoteBytes\<close> on the bytes between the quotes of a literal: escapes are replaced, and
  a byte that begins no well-formed UTF-8 encoding becomes U+FFFD. \<open>None\<close> is the
  failure that the scanner excludes, having accepted the literal.
\<close>

fun unquote :: "string \<Rightarrow> string option" where
  "unquote [] = Some []"
| "unquote (c # s) =
     (if c = CHR 0x5C then
        (case s of
           [] \<Rightarrow> None
         | e # s' \<Rightarrow>
             if e = CHR ''u'' then
               (case getu4 (c # s) of
                  None \<Rightarrow> None
                | Some rr \<Rightarrow>
                    if IsSurrogate rr then
                      (let dec = utf16_DecodeRune rr (getu4 (drop 5 s)) in
                       if dec \<noteq> ReplacementChar
                       then map_option ((@) (EncodeRune dec)) (unquote (drop 11 s))
                       else map_option ((@) (EncodeRune ReplacementChar)) (unquote (drop 5 s)))
                    else map_option ((@) (EncodeRune rr)) (unquote (drop 5 s)))
             else if e = CHR 0x22 \<or> e = CHR 0x5C \<or> e = CHR ''/'' \<or> e = CHR 0x27
               then map_option ((#) e) (unquote s')
             else if e = CHR ''b'' then map_option ((#) (CHR 0x08)) (unquote s')
             else if e = CHR ''f'' then map_option ((#) (CHR 0x0C)) (unquote s')
             else if e = CHR ''n'' then map_option ((#) (CHR 0x0A)) (unquote s')
             else if e = CHR ''r'' then map_option ((#) (CHR 0x0D)) (unquote s')
             else if e = CHR ''t'' then map_option ((#) (CHR 0x09)) (unquote s')
             else None)
      else if c = CHR 0x22 \<or> (of_char c :: nat) < 0x20 then None
      else if (of_char c :: nat) < 0x80 then map_option ((#) c) (unquote s)
      else
        (let n = utf8_width (c # s) in
         if n = 0 then map_option ((@) (EncodeRune ReplacementChar)) (unquote s)
         else map_option ((@) (take n (c # s))) (unquote (drop (n - 1) s))))"

subsection \<open>The scanner\<close>

text \<open>
  The decoder reads one JSON value from the bytes with the state machine of
  \<^verbatim>\<open>encoding/json\<close>'s scanner, one byte at a time. The modes are the scanner's step
  functions; the stack is its parse state, and holds the values read so far of the arrays
  and objects that are open.
\<close>

datatype mode =
    BeginValue
  | BeginValueOrEmpty
  | BeginStringOrEmpty
  | BeginString
  | EndValue
  | InString
  | InStringEsc
  | InStringEscU nat
  | Neg
  | Num0
  | Num1
  | Dot
  | Dot0
  | Exp
  | ExpSign
  | Exp0
  | Literal string jvalue

datatype frame =
    ArrayFrame "jvalue list"
  | ObjectFrame "(string \<times> jvalue) list" "string option"

record scanner =
  step_mode :: mode
  parseState :: "frame list"
  token :: string
  topValue :: "jvalue option"

datatype step_result =
    Continue scanner
  | EndBefore jvalue
  | EndAfter jvalue
  | ScanError

definition maxNestingDepth :: nat where
  "maxNestingDepth = 10000"

definition isSpace :: "char \<Rightarrow> bool" where
  "isSpace c \<longleftrightarrow> c = CHR '' '' \<or> c = CHR 0x09 \<or> c = CHR 0x0D \<or> c = CHR 0x0A"

definition reset :: scanner where
  "reset = \<lparr>step_mode = BeginValue, parseState = [], token = [], topValue = None\<rparr>"

text \<open>
  A value is complete: it is the value read when nothing is open, else it joins the
  array or the object that is open.
\<close>

definition endValue :: "jvalue \<Rightarrow> scanner \<Rightarrow> step_result" where
  "endValue v s =
     (case parseState s of
        [] \<Rightarrow> Continue (s\<lparr>step_mode := EndValue, token := [], topValue := Some v\<rparr>)
      | ArrayFrame vs # fs \<Rightarrow>
          Continue (s\<lparr>step_mode := EndValue, token := [], parseState := ArrayFrame (vs @ [v]) # fs\<rparr>)
      | ObjectFrame ms (Some k) # fs \<Rightarrow>
          Continue (s\<lparr>step_mode := EndValue, token := [],
                      parseState := ObjectFrame (ms @ [(k, v)]) None # fs\<rparr>)
      | ObjectFrame ms None # fs \<Rightarrow> ScanError)"

text \<open>
  The closing bracket of an array or an object: at the top level, the value ends with this
  byte.
\<close>

definition closeFrame :: "jvalue \<Rightarrow> scanner \<Rightarrow> step_result" where
  "closeFrame v s =
     (case tl (parseState s) of
        [] \<Rightarrow> EndAfter v
      | fs \<Rightarrow> endValue v (s\<lparr>parseState := fs\<rparr>))"

definition pushParseState :: "frame \<Rightarrow> mode \<Rightarrow> scanner \<Rightarrow> step_result" where
  "pushParseState f m s =
     (if length (f # parseState s) \<le> maxNestingDepth
      then Continue (s\<lparr>step_mode := m, parseState := f # parseState s\<rparr>)
      else ScanError)"

definition stateBeginString :: "scanner \<Rightarrow> char \<Rightarrow> step_result" where
  "stateBeginString s c =
     (if isSpace c then Continue s
      else if c = CHR 0x22 then Continue (s\<lparr>step_mode := InString, token := []\<rparr>)
      else ScanError)"

definition stateBeginValue :: "scanner \<Rightarrow> char \<Rightarrow> step_result" where
  "stateBeginValue s c =
     (if isSpace c then Continue s
      else if c = CHR ''{'' then pushParseState (ObjectFrame [] None) BeginStringOrEmpty s
      else if c = CHR ''['' then pushParseState (ArrayFrame []) BeginValueOrEmpty s
      else if c = CHR 0x22 then Continue (s\<lparr>step_mode := InString, token := []\<rparr>)
      else if c = CHR ''-'' then Continue (s\<lparr>step_mode := Neg, token := [c]\<rparr>)
      else if c = CHR ''0'' then Continue (s\<lparr>step_mode := Num0, token := [c]\<rparr>)
      else if c = CHR ''t'' then Continue (s\<lparr>step_mode := Literal ''rue'' (JBool True)\<rparr>)
      else if c = CHR ''f'' then Continue (s\<lparr>step_mode := Literal ''alse'' (JBool False)\<rparr>)
      else if c = CHR ''n'' then Continue (s\<lparr>step_mode := Literal ''ull'' JNull\<rparr>)
      else if isDigit c then Continue (s\<lparr>step_mode := Num1, token := [c]\<rparr>)
      else ScanError)"

text \<open>
  After a value: outside every array and object the value read ends before this byte,
  whatever the byte is; inside, a colon follows a key, a comma or the closing bracket a
  value.
\<close>

definition stateEndValue :: "scanner \<Rightarrow> char \<Rightarrow> step_result" where
  "stateEndValue s c =
     (case parseState s of
        [] \<Rightarrow> (case topValue s of Some v \<Rightarrow> EndBefore v | None \<Rightarrow> ScanError)
      | f # fs \<Rightarrow>
          if isSpace c then Continue s
          else
            (case f of
               ObjectFrame ms (Some k) \<Rightarrow>
                 if c = CHR '':'' then Continue (s\<lparr>step_mode := BeginValue\<rparr>) else ScanError
             | ObjectFrame ms None \<Rightarrow>
                 if c = CHR '','' then Continue (s\<lparr>step_mode := BeginString\<rparr>)
                 else if c = CHR ''}'' then closeFrame (JObject ms) s
                 else ScanError
             | ArrayFrame vs \<Rightarrow>
                 if c = CHR '','' then Continue (s\<lparr>step_mode := BeginValue\<rparr>)
                 else if c = CHR '']'' then closeFrame (JArray vs) s
                 else ScanError))"

text \<open>The closing quote of a string: a key of the open object, or a value.\<close>

definition endString :: "scanner \<Rightarrow> step_result" where
  "endString s =
     (case unquote (token s) of
        None \<Rightarrow> ScanError
      | Some str \<Rightarrow>
          (case parseState s of
             ObjectFrame ms None # fs \<Rightarrow>
               Continue (s\<lparr>step_mode := EndValue, token := [],
                           parseState := ObjectFrame ms (Some str) # fs\<rparr>)
           | _ \<Rightarrow> endValue (JString str) s))"

text \<open>A number ends before the byte \<open>c\<close>, which is then read after a value.\<close>

definition endNumber :: "scanner \<Rightarrow> char \<Rightarrow> step_result" where
  "endNumber s c =
     (case endValue (JNumber (token s)) s of
        Continue s' \<Rightarrow> stateEndValue s' c
      | r \<Rightarrow> r)"

definition addByte :: "scanner \<Rightarrow> char \<Rightarrow> mode \<Rightarrow> step_result" where
  "addByte s c m = Continue (s\<lparr>step_mode := m, token := token s @ [c]\<rparr>)"

definition step :: "scanner \<Rightarrow> char \<Rightarrow> step_result" where
  "step s c =
     (case step_mode s of
        BeginValue \<Rightarrow> stateBeginValue s c
      | BeginValueOrEmpty \<Rightarrow>
          if isSpace c then Continue s
          else if c = CHR '']'' then stateEndValue s c
          else stateBeginValue s c
      | BeginStringOrEmpty \<Rightarrow>
          if isSpace c then Continue s
          else if c = CHR ''}'' then stateEndValue s c
          else stateBeginString s c
      | BeginString \<Rightarrow> stateBeginString s c
      | EndValue \<Rightarrow> stateEndValue s c
      | InString \<Rightarrow>
          if c = CHR 0x22 then endString s
          else if c = CHR 0x5C then addByte s c InStringEsc
          else if (of_char c :: nat) < 0x20 then ScanError
          else addByte s c InString
      | InStringEsc \<Rightarrow>
          if c \<in> set [CHR ''b'', CHR ''f'', CHR ''n'', CHR ''r'', CHR ''t'', CHR 0x5C, CHR ''/'',
                      CHR 0x22]
          then addByte s c InString
          else if c = CHR ''u'' then addByte s c (InStringEscU 4)
          else ScanError
      | InStringEscU n \<Rightarrow>
          if hexVal c = None then ScanError
          else if n \<le> 1 then addByte s c InString
          else addByte s c (InStringEscU (n - 1))
      | Neg \<Rightarrow>
          if c = CHR ''0'' then addByte s c Num0
          else if isDigit c then addByte s c Num1
          else ScanError
      | Num1 \<Rightarrow>
          if isDigit c then addByte s c Num1
          else if c = CHR ''.'' then addByte s c Dot
          else if c = CHR ''e'' \<or> c = CHR ''E'' then addByte s c Exp
          else endNumber s c
      | Num0 \<Rightarrow>
          if c = CHR ''.'' then addByte s c Dot
          else if c = CHR ''e'' \<or> c = CHR ''E'' then addByte s c Exp
          else endNumber s c
      | Dot \<Rightarrow> if isDigit c then addByte s c Dot0 else ScanError
      | Dot0 \<Rightarrow>
          if isDigit c then addByte s c Dot0
          else if c = CHR ''e'' \<or> c = CHR ''E'' then addByte s c Exp
          else endNumber s c
      | Exp \<Rightarrow>
          if c = CHR ''+'' \<or> c = CHR ''-'' then addByte s c ExpSign
          else if isDigit c then addByte s c Exp0
          else ScanError
      | ExpSign \<Rightarrow> if isDigit c then addByte s c Exp0 else ScanError
      | Exp0 \<Rightarrow> if isDigit c then addByte s c Exp0 else endNumber s c
      | Literal rest v \<Rightarrow>
          (case rest of
             [] \<Rightarrow> ScanError
           | x # xs \<Rightarrow>
               if c \<noteq> x then ScanError
               else if xs = [] then endValue v s
               else Continue (s\<lparr>step_mode := Literal xs v\<rparr>)))"

text \<open>
  The loop of \<^verbatim>\<open>readValue\<close> over the bytes at hand: the value and the bytes after it, a
  syntax error, or the state in which the bytes ran out.
\<close>

datatype scan_result =
    Found jvalue string
  | Invalid
  | OutOfInput scanner

fun scan :: "scanner \<Rightarrow> string \<Rightarrow> scan_result" where
  "scan s [] = OutOfInput s"
| "scan s (c # cs) =
     (case step s c of
        Continue s' \<Rightarrow> scan s' cs
      | EndBefore v \<Rightarrow> Found v (c # cs)
      | EndAfter v \<Rightarrow> Found v cs
      | ScanError \<Rightarrow> Invalid)"

subsection \<open>The reader and the decoder\<close>

text \<open>
  \<^verbatim>\<open>http.MaxBytesReader(w, body, n)\<close> hands on the first \<open>n\<close> bytes of the body; after
  them it reports the end of the body, or that the body is larger.
\<close>

datatype read_end = EOF | TooLarge

record Decoder =
  buf :: string
  read_err :: read_end
  disallowUnknownFields :: bool

definition MaxBytesReader :: "string \<Rightarrow> nat \<Rightarrow> string \<times> read_end" where
  "MaxBytesReader body n = (take n body, if length body > n then TooLarge else EOF)"

definition NewDecoder :: "string \<times> read_end \<Rightarrow> Decoder" where
  "NewDecoder r = \<lparr>buf = fst r, read_err = snd r, disallowUnknownFields = False\<rparr>"

definition DisallowUnknownFields :: "Decoder \<Rightarrow> Decoder" where
  "DisallowUnknownFields dec = dec\<lparr>disallowUnknownFields := True\<rparr>"

text \<open>
  \<^verbatim>\<open>readValue\<close>: when the bytes run out, an error of the reader is returned as it is;
  at the end of the body, a value that only waited for the byte after it is complete,
  white space alone is \<^verbatim>\<open>io.EOF\<close>, and anything else \<^verbatim>\<open>io.ErrUnexpectedEOF\<close>.
\<close>

definition readValue :: "Decoder \<Rightarrow> decode_error + jvalue \<times> Decoder" where
  "readValue dec =
     (case scan reset (buf dec) of
        Found v rest \<Rightarrow> Inr (v, dec\<lparr>buf := rest\<rparr>)
      | Invalid \<Rightarrow> Inl json_SyntaxError
      | OutOfInput s \<Rightarrow>
          (case read_err dec of
             TooLarge \<Rightarrow> Inl http_MaxBytesError
           | EOF \<Rightarrow>
               (case step s (CHR '' '') of
                  EndBefore v \<Rightarrow> Inr (v, dec\<lparr>buf := []\<rparr>)
                | _ \<Rightarrow>
                    if list_ex (\<lambda>c. \<not> isSpace c) (buf dec) then Inl io_ErrUnexpectedEOF
                    else Inl io_EOF)))"

subsection \<open>Decoding into the request struct\<close>

text \<open>The struct \<^verbatim>\<open>createUserRequest\<close> of \<^verbatim>\<open>HandleUsers\<close>, with its field \<^verbatim>\<open>Name\<close>.\<close>

record createUserRequest =
  reqName :: string

definition kindOf :: "jvalue \<Rightarrow> string" where
  "kindOf v =
     (case v of
        JNull \<Rightarrow> ''null''
      | JBool _ \<Rightarrow> ''bool''
      | JNumber _ \<Rightarrow> ''number''
      | JString _ \<Rightarrow> ''string''
      | JArray _ \<Rightarrow> ''array''
      | JObject _ \<Rightarrow> ''object'')"

text \<open>
  A key names the field \<^verbatim>\<open>Name\<close>, whose tag is \<^verbatim>\<open>name\<close>, when it is that tag up to the
  case of its letters.
\<close>

definition toUpper :: "char \<Rightarrow> char" where
  "toUpper c =
     (case map_of (zip ''abcdefghijklmnopqrstuvwxyz'' ''ABCDEFGHIJKLMNOPQRSTUVWXYZ'') c of
        Some u \<Rightarrow> u
      | None \<Rightarrow> c)"

definition isNameField :: "string \<Rightarrow> bool" where
  "isNameField key \<longleftrightarrow> map toUpper key = ''NAME''"

text \<open>\<^verbatim>\<open>saveError\<close> keeps the first error.\<close>

definition saveError :: "decode_error option \<Rightarrow> decode_error \<Rightarrow> decode_error option" where
  "saveError saved e = (case saved of None \<Rightarrow> Some e | Some e0 \<Rightarrow> Some e0)"

text \<open>
  The members of an object, decoded into the struct in their order: a string sets the
  field, \<^verbatim>\<open>null\<close> leaves it, another value is a type error; an unknown key is an error
  when unknown fields are disallowed. Decoding goes on after an error.
\<close>

fun object_createUserRequest ::
  "bool \<Rightarrow> (string \<times> jvalue) list \<Rightarrow> decode_error option \<times> createUserRequest
     \<Rightarrow> decode_error option \<times> createUserRequest" where
  "object_createUserRequest disallow [] (saved, dst) = (saved, dst)"
| "object_createUserRequest disallow ((key, v) # ms) (saved, dst) =
     object_createUserRequest disallow ms
       (if isNameField key then
          (case v of
             JString str \<Rightarrow> (saved, dst\<lparr>reqName := str\<rparr>)
           | JNull \<Rightarrow> (saved, dst)
           | _ \<Rightarrow> (saveError saved (json_UnmarshalTypeError (kindOf v)), dst))
        else if disallow then (saveError saved (json_UnknownField key), dst)
        else (saved, dst))"

definition unmarshal_createUserRequest ::
  "bool \<Rightarrow> jvalue \<Rightarrow> createUserRequest \<Rightarrow> decode_error option \<times> createUserRequest" where
  "unmarshal_createUserRequest disallow v dst =
     (case v of
        JObject ms \<Rightarrow> object_createUserRequest disallow ms (None, dst)
      | JNull \<Rightarrow> (None, dst)
      | _ \<Rightarrow> (Some (json_UnmarshalTypeError (kindOf v)), dst))"

text \<open>Decoding into the empty struct \<^verbatim>\<open>struct{}{}\<close>: every key is unknown.\<close>

definition unmarshal_struct :: "bool \<Rightarrow> jvalue \<Rightarrow> decode_error option" where
  "unmarshal_struct disallow v =
     (case v of
        JObject ms \<Rightarrow> (if disallow \<and> ms \<noteq> [] then Some (json_UnknownField (fst (hd ms))) else None)
      | JNull \<Rightarrow> None
      | _ \<Rightarrow> Some (json_UnmarshalTypeError (kindOf v)))"

text \<open>\<^verbatim>\<open>Decode\<close> into either struct: the error, the struct, and the decoder after the call.\<close>

definition Decode_createUserRequest ::
  "Decoder \<Rightarrow> createUserRequest \<Rightarrow> decode_error option \<times> createUserRequest \<times> Decoder" where
  "Decode_createUserRequest dec dst =
     (case readValue dec of
        Inl err \<Rightarrow> (Some err, dst, dec)
      | Inr (v, dec') \<Rightarrow>
          (case unmarshal_createUserRequest (disallowUnknownFields dec) v dst of
             (err, dst') \<Rightarrow> (err, dst', dec')))"

definition Decode_struct :: "Decoder \<Rightarrow> decode_error option \<times> Decoder" where
  "Decode_struct dec =
     (case readValue dec of
        Inl err \<Rightarrow> (Some err, dec)
      | Inr (v, dec') \<Rightarrow> (unmarshal_struct (disallowUnknownFields dec) v, dec'))"

section \<open>Responses and their helpers (the helper functions beside users_store.go)\<close>

text \<open>
  A value handed to the JSON encoder: what the handlers put into response bodies. A Go
  \<^verbatim>\<open>map[string]any\<close> literal is the list of its entries; the encoder writes the keys of a
  map in sorted order, so the order of the list is not observable. \<open>AErrorText e\<close> is
  the string \<^verbatim>\<open>e.Error()\<close> of an error of the reader or the decoder, whose wording is the
  library's.
\<close>

datatype any =
    AString string
  | AErrorText decode_error
  | AInt int
  | ABool bool
  | AStrings "string list"
  | AUser User
  | AUsers "User list"
  | AMap "(string \<times> any) list"

text \<open>
  An \<^verbatim>\<open>http.ResponseWriter\<close>: the header map, the status written by \<^verbatim>\<open>WriteHeader\<close>
  (0 before), and the values encoded into the body. The server hands every request a
  writer of its own.
\<close>

record ResponseWriter =
  Header :: "string \<rightharpoonup> string"
  StatusCode :: int
  Written :: "any list"

record Request =
  Method :: string
  URLPath :: string
  Body :: string

definition MethodGet :: string where "MethodGet = ''GET''"
definition MethodPost :: string where "MethodPost = ''POST''"
definition MethodDelete :: string where "MethodDelete = ''DELETE''"

definition StatusOK :: int where "StatusOK = 200"
definition StatusCreated :: int where "StatusCreated = 201"
definition StatusBadRequest :: int where "StatusBadRequest = 400"
definition StatusNotFound :: int where "StatusNotFound = 404"
definition StatusMethodNotAllowed :: int where "StatusMethodNotAllowed = 405"
definition StatusInternalServerError :: int where "StatusInternalServerError = 500"

definition writeJSON :: "ResponseWriter \<Rightarrow> int \<Rightarrow> any \<Rightarrow> ResponseWriter" where
  "writeJSON w status payload =
     (let w1 = w\<lparr>Header := (Header w)(''Content-Type'' \<mapsto> ''application/json'')\<rparr>;
          w2 = w1\<lparr>StatusCode := status\<rparr>
      in w2\<lparr>Written := Written w2 @ [payload]\<rparr>)"

definition errorJSON ::
  "ResponseWriter \<Rightarrow> int \<Rightarrow> string \<Rightarrow> any \<Rightarrow> any option \<Rightarrow> ResponseWriter" where
  "errorJSON w status code message details =
     (let resp = [(''error'', AString code), (''message'', message)];
          resp' = (case details of None \<Rightarrow> resp | Some d \<Rightarrow> resp @ [(''details'', d)])
      in writeJSON w status (AMap resp'))"

text \<open>
  \<^verbatim>\<open>readJSON\<close>: the body through a reader of at most \<open>1 << 20\<close> bytes, one value decoded
  into \<open>dst\<close> with unknown fields disallowed, and a second \<^verbatim>\<open>Decode\<close> that must return
  \<^verbatim>\<open>io.EOF\<close>.
\<close>

definition readJSON ::
  "ResponseWriter \<Rightarrow> Request \<Rightarrow> createUserRequest \<Rightarrow> decode_error option \<times> createUserRequest" where
  "readJSON w r dst =
     (let body = MaxBytesReader (Body r) (2 ^ 20);
          dec = DisallowUnknownFields (NewDecoder body)
      in case Decode_createUserRequest dec dst of
           (Some err, dst', dec') \<Rightarrow> (Some err, dst')
         | (None, dst', dec') \<Rightarrow>
             (case Decode_struct dec' of
                (Some io_EOF, _) \<Rightarrow> (None, dst')
              | _ \<Rightarrow> (Some (errors_New ''unexpected extra JSON content''), dst')))"

definition requireMethods ::
  "ResponseWriter \<Rightarrow> Request \<Rightarrow> string list \<Rightarrow> bool \<times> ResponseWriter" where
  "requireMethods w r allowed =
     (if list_ex (\<lambda>m. Method r = m) allowed then (True, w)
      else
        let w1 = w\<lparr>Header := (Header w)(''Allow'' \<mapsto> Join allowed '', '')\<rparr>
        in (False, errorJSON w1 StatusMethodNotAllowed ''method_not_allowed''
                     (AString ''method not allowed'')
                     (Some (AMap [(''method'', AString (Method r)), (''allow'', AStrings allowed)]))))"

section \<open>The user service (users_service.go, app_error.go)\<close>

record AppError =
  Status :: int
  Code :: string
  Message :: string
  Details :: "any option"

text \<open>
  A Go \<^verbatim>\<open>error\<close> returned by the service: an \<^verbatim>\<open>*AppError\<close>, which is all the service
  returns, or some other error, for which \<^verbatim>\<open>writeAppError\<close> has a branch.
\<close>

datatype error = AppErr AppError | OtherErr decode_error

text \<open>
  The calls of the service that a handler makes are recorded in \<open>calls\<close>. The record has
  no counterpart in the Go struct: it makes observable whether a method was entered. A
  handler reaches the store through the service only.
\<close>

datatype call = CallCreateUser string | CallGetUser int | CallDeleteUser int | CallListUsers

record UserService =
  store :: UserStore
  calls :: "call list"

definition NewUserService :: "UserStore \<Rightarrow> UserService" where
  "NewUserService st = \<lparr>store = st, calls = []\<rparr>"

definition CreateUser :: "UserService \<Rightarrow> string \<Rightarrow> time \<Rightarrow> (error + User) \<times> UserService" where
  "CreateUser s name now =
     (let s0 = s\<lparr>calls := calls s @ [CallCreateUser name]\<rparr>;
          name' = TrimSpace name
      in if name' = [] then
           (Inl (AppErr \<lparr>Status = StatusBadRequest, Code = ''validation_failed'',
                         Message = ''missing required fields'',
                         Details = Some (AStrings [''name is required''])\<rparr>), s0)
         else
           (case Create (store s0) name' now of
              (u, st') \<Rightarrow> (Inr u, s0\<lparr>store := st'\<rparr>)))"

definition notFound :: error where
  "notFound = AppErr \<lparr>Status = StatusNotFound, Code = ''not_found'',
                       Message = ''resource not found'', Details = None\<rparr>"

definition GetUser :: "UserService \<Rightarrow> int \<Rightarrow> (error + User) \<times> UserService" where
  "GetUser s id' =
     (let s0 = s\<lparr>calls := calls s @ [CallGetUser id']\<rparr>
      in case Get (store s0) id' of
           ((u, ok), st') \<Rightarrow>
             if \<not> ok then (Inl notFound, s0\<lparr>store := st'\<rparr>)
             else (Inr u, s0\<lparr>store := st'\<rparr>))"

definition DeleteUser :: "UserService \<Rightarrow> int \<Rightarrow> error option \<times> UserService" where
  "DeleteUser s id' =
     (let s0 = s\<lparr>calls := calls s @ [CallDeleteUser id']\<rparr>
      in case Delete (store s0) id' of
           (ok, st') \<Rightarrow>
             if \<not> ok then (Some notFound, s0\<lparr>store := st'\<rparr>)
             else (None, s0\<lparr>store := st'\<rparr>))"

definition ListUsers :: "UserService \<Rightarrow> int list \<Rightarrow> User list \<times> UserService" where
  "ListUsers s ks =
     (let s0 = s\<lparr>calls := calls s @ [CallListUsers]\<rparr>
      in case List (store s0) ks of (out, st') \<Rightarrow> (out, s0\<lparr>store := st'\<rparr>))"

section \<open>The handlers (users_handler.go)\<close>

text \<open>
  What a handler reads from its environment besides the request: the clock, read by
  \<^verbatim>\<open>Create\<close>, and the order in which \<^verbatim>\<open>List\<close> visits the map.
\<close>

record Env =
  clock :: time
  visit :: "int list"

definition writeAppError :: "ResponseWriter \<Rightarrow> error \<Rightarrow> ResponseWriter" where
  "writeAppError w err =
     (case err of
        AppErr ae \<Rightarrow> errorJSON w (Status ae) (Code ae) (AString (Message ae)) (Details ae)
      | OtherErr _ \<Rightarrow>
          errorJSON w StatusInternalServerError ''internal_error'' (AString ''unexpected error'') None)"

definition parsePositiveInt :: "string \<Rightarrow> NumError + int" where
  "parsePositiveInt s =
     (let s' = TrimSpace s
      in case Atoi s' of
           Inl err \<Rightarrow> Inl ErrSyntax
         | Inr n \<Rightarrow> if n \<le> 0 then Inl ErrSyntax else Inr n)"

definition HandleUsers ::
  "UserService \<Rightarrow> Env \<Rightarrow> ResponseWriter \<Rightarrow> Request \<Rightarrow> ResponseWriter \<times> UserService" where
  "HandleUsers svc env w r =
     (case requireMethods w r [MethodGet, MethodPost] of
        (False, w') \<Rightarrow> (w', svc)
      | (True, w') \<Rightarrow>
          if Method r = MethodGet then
            (case ListUsers svc (visit env) of
               (users, svc') \<Rightarrow>
                 (writeJSON w' StatusOK
                    (AMap [(''items'', AUsers users), (''count'', AInt (int (length users)))]),
                  svc'))
          else if Method r = MethodPost then
            (case readJSON w' r \<lparr>reqName = []\<rparr> of
               (Some err, req) \<Rightarrow>
                 (errorJSON w' StatusBadRequest ''invalid_json'' (AErrorText err) None, svc)
             | (None, req) \<Rightarrow>
                 (case CreateUser svc (reqName req) (clock env) of
                    (Inl err, svc') \<Rightarrow> (writeAppError w' err, svc')
                  | (Inr u, svc') \<Rightarrow> (writeJSON w' StatusCreated (AUser u), svc')))
          else (w', svc))"

definition prefix :: string where
  "prefix = ''/users/''"

text \<open>
  The routes below \<^verbatim>\<open>/users/{id}\<close>, in the order of the source: the profile, an order,
  and not found for every other path.
\<close>

definition subRoutes ::
  "UserService \<Rightarrow> ResponseWriter \<Rightarrow> Request \<Rightarrow> int \<Rightarrow> string list
     \<Rightarrow> ResponseWriter \<times> UserService" where
  "subRoutes svc w r id' parts =
     (if length parts = 2 \<and> parts ! 1 = ''profile'' then
        (case requireMethods w r [MethodGet] of
           (False, w') \<Rightarrow> (w', svc)
         | (True, w') \<Rightarrow>
             (case GetUser svc id' of
                (Inl err, svc') \<Rightarrow> (writeAppError w' err, svc')
              | (Inr _, svc') \<Rightarrow>
                  (writeJSON w' StatusOK (AMap [(''id'', AInt id'), (''profile'', ABool True)]),
                   svc')))
      else if length parts = 3 \<and> parts ! 1 = ''orders'' then
        (case requireMethods w r [MethodGet] of
           (False, w') \<Rightarrow> (w', svc)
         | (True, w') \<Rightarrow>
             (let orderId = TrimSpace (parts ! 2)
              in if orderId = [] then
                   (errorJSON w' StatusBadRequest ''invalid_path'' (AString ''orderId is required'')
                      None, svc)
                 else
                   (case GetUser svc id' of
                      (Inl err, svc') \<Rightarrow> (writeAppError w' err, svc')
                    | (Inr _, svc') \<Rightarrow>
                        (writeJSON w' StatusOK
                           (AMap [(''id'', AInt id'), (''orderId'', AString orderId)]),
                         svc'))))
      else
        (errorJSON w StatusNotFound ''not_found'' (AString ''resource not found'')
           (Some (AMap [(''path'', AString (URLPath r))])), svc))"

definition HandleUserRoutes ::
  "UserService \<Rightarrow> Env \<Rightarrow> ResponseWriter \<Rightarrow> Request \<Rightarrow> ResponseWriter \<times> UserService" where
  "HandleUserRoutes svc env w r =
     (let path = URLPath r
      in if length path \<le> length prefix then
           (errorJSON w StatusBadRequest ''invalid_path'' (AString ''user id is required'') None,
            svc)
         else
           let rest = Trim (drop (length prefix) path) ''/'';
               parts = Split rest (CHR ''/'')
           in case parsePositiveInt (hd parts) of
                Inl err \<Rightarrow>
                  (errorJSON w StatusBadRequest ''invalid_path''
                     (AString ''user id must be a positive integer'') None, svc)
              | Inr id' \<Rightarrow>
                  if length parts = 1 then
                    (case requireMethods w r [MethodGet, MethodDelete] of
                       (False, w') \<Rightarrow> (w', svc)
                     | (True, w') \<Rightarrow>
                         if Method r = MethodGet then
                           (case GetUser svc id' of
                              (Inl err, svc') \<Rightarrow> (writeAppError w' err, svc')
                            | (Inr u, svc') \<Rightarrow> (writeJSON w' StatusOK (AUser u), svc'))
                         else if Method r = MethodDelete then
                           (case DeleteUser svc id' of
                              (Some err, svc') \<Rightarrow> (writeAppError w' err, svc')
                            | (None, svc') \<Rightarrow>
                                (writeJSON w' StatusOK
                                   (AMap [(''deleted'', ABool True), (''id'', AInt id')]),
                                 svc'))
                         else subRoutes svc w' r id' parts)
                  else subRoutes svc w r id' parts)"

section \<open>An example run\<close>

definition w_cs1 :: "op list" where "w_cs1 = [OpCreate ''Ada'' 10]"
definition w_s1 :: UserStore where "w_s1 = snd (exec NewUserStore w_cs1)"
definition w_u :: User where "w_u = fst (Create w_s1 ''Bob'' 11)"
definition w_s2 :: UserStore where "w_s2 = snd (Create w_s1 ''Bob'' 11)"
definition w_cs2 :: "op list" where
  "w_cs2 = [OpGet 2, OpCreate ''Cy'' 12, OpDelete 1, OpList [2, 3]]"
definition w_s3 :: UserStore where "w_s3 = snd (exec w_s2 w_cs2)"
definition w_s4 :: UserStore where "w_s4 = snd (Delete w_s3 (ID w_u))"
definition w_cs3 :: "op list" where "w_cs3 = [OpCreate ''Di'' 13, OpDelete 2, OpGet 2]"
definition w_s5 :: UserStore where "w_s5 = snd (exec w_s4 w_cs3)"
definition w_cs :: "op list" where
  "w_cs = [OpCreate ''Ada'' 10, OpGet 1, OpCreate ''Bob'' 11, OpList [2, 1]]"

definition body_empty_name :: string where
  "body_empty_name = [CHR ''{'', CHR 0x22, CHR ''n'', CHR ''a'', CHR ''m'', CHR ''e'', CHR 0x22, CHR '':'', CHR '' '', CHR 0x22, CHR 0x22, CHR ''}'']"

definition w0 :: ResponseWriter where "w0 = \<lparr>Header = Map.empty, StatusCode = 0, Written = []\<rparr>"

definition svc0 :: UserService where "svc0 = NewUserService NewUserStore"

definition env0 :: Env where "env0 = \<lparr>clock = 7, visit = []\<rparr>"

definition put_users :: Request where
  "put_users = \<lparr>Method = ''PUT'', URLPath = ''/users'', Body = []\<rparr>"

definition put_user1 :: Request where
  "put_user1 = \<lparr>Method = ''PUT'', URLPath = ''/users/1'', Body = []\<rparr>"

definition get_abc :: Request where
  "get_abc = \<lparr>Method = ''GET'', URLPath = ''/users/abc'', Body = []\<rparr>"

definition get_orders_none :: Request where
  "get_orders_none = \<lparr>Method = ''GET'', URLPath = ''/users/5/orders/'', Body = []\<rparr>"

definition put_abc :: Request where
  "put_abc = \<lparr>Method = ''PUT'', URLPath = ''/users/abc'', Body = []\<rparr>"

definition get_orders_blank :: Request where
  "get_orders_blank = \<lparr>Method = ''GET'', URLPath = ''/users/5/orders/ '', Body = []\<rparr>"

definition post_empty_name :: Request where
  "post_empty_name = \<lparr>Method = ''POST'', URLPath = ''/users'', Body = body_empty_name\<rparr>"

text \<open>
  A long run for a store whose counter is at \<open>i\<close>: \<open>n\<close> times, a record is created and
  deleted again at once, so that the store never holds more than it held plus one record.
\<close>

definition churn :: "int \<Rightarrow> nat \<Rightarrow> op list" where
  "churn i n = concat (map (\<lambda>k. [OpCreate ''b'' 1, OpDelete (wrap64 (i + int k))]) [0..<n])"

text \<open>
  On a store whose counter is at 2, this run creates and deletes the records with the ids
  2, 3, ..., \<open>maxInt\<close>, \<open>minInt\<close>, ..., -1, 0, and then creates one more record.
\<close>

definition wrap_run :: "op list" where
  "wrap_run = churn 2 (2 ^ 64 - 1) @ [OpCreate ''b'' 1]"

definition get_slash5 :: Request where
  "get_slash5 = \<lparr>Method = ''GET'', URLPath = ''/users//5'', Body = []\<rparr>"

definition put_slash5 :: Request where
  "put_slash5 = \<lparr>Method = ''PUT'', URLPath = ''/users//5'', Body = []\<rparr>"

section \<open>Notions used in the statements and proofs\<close>

text \<open>The values of a Go \<^verbatim>\<open>int\<close>.\<close>

abbreviation inRange :: "int \<Rightarrow> bool" where
  "inRange x \<equiv> minInt \<le> x \<and> x \<le> maxInt"

text \<open>The number of calls of \<^verbatim>\<open>Create\<close> in a run.\<close>

abbreviation creates :: "op list \<Rightarrow> nat" where
  "creates cs \<equiv> length (filter is_create cs)"

text \<open>The id that the call of \<^verbatim>\<open>Create\<close> number \<open>j\<close> after the state \<open>s\<close> returns.\<close>

abbreviation issue :: "UserStore \<Rightarrow> nat \<Rightarrow> int" where
  "issue s j \<equiv> wrap64 (nextID s + int j)"

text \<open>Every record is stored under its own id.\<close>

abbreviation own_id :: "UserStore \<Rightarrow> bool" where
  "own_id s \<equiv> \<forall>k u. items s k = Some u \<longrightarrow> ID u = k"

text \<open>
  The segment of the path that \<^verbatim>\<open>HandleUserRoutes\<close> reads as the id, said without the
  functions of the handler: the path without its first seven characters (the prefix
  \<^verbatim>\<open>/users/\<close>) and without the slashes that follow them, up to the next slash or the end.
  It is the first segment below \<^verbatim>\<open>/users/\<close> that is not empty, and empty when there is
  none.
\<close>

definition first_nonempty_segment :: "string \<Rightarrow> string" where
  "first_nonempty_segment path =
     takeWhile (\<lambda>c. c \<noteq> CHR ''/'') (dropWhile (\<lambda>c. c = CHR ''/'') (drop 7 path))"

section \<open>Properties of the store\<close>

subsection \<open>Wrap-around\<close>

lemma wrap64_range: "inRange (wrap64 x)"
proof -
  have "0 \<le> (x + 2 ^ 63) mod (2 ^ 64 :: int)" "(x + 2 ^ 63) mod (2 ^ 64 :: int) < 2 ^ 64"
    by simp_all
  then show ?thesis by (simp add: wrap64_def minInt_def maxInt_def)
qed

lemma wrap64_id: "inRange x \<Longrightarrow> wrap64 x = x"
  by (simp add: wrap64_def minInt_def maxInt_def)

lemma wrap64_add: "wrap64 (wrap64 x + y) = wrap64 (x + y)"
proof -
  have "((x + 2 ^ 63) mod 2 ^ 64 + y) mod (2 ^ 64 :: int) = (x + 2 ^ 63 + y) mod 2 ^ 64"
    by (rule mod_add_left_eq)
  then show ?thesis by (simp add: wrap64_def algebra_simps)
qed

lemma wrap64_eqD: "wrap64 x = wrap64 y \<Longrightarrow> (x - y) mod 2 ^ 64 = 0"
proof -
  assume "wrap64 x = wrap64 y"
  then have "(x + 2 ^ 63) mod (2 ^ 64 :: int) = (y + 2 ^ 63) mod 2 ^ 64"
    by (simp add: wrap64_def)
  then have "(2 ^ 64 :: int) dvd (x + 2 ^ 63) - (y + 2 ^ 63)"
    by (simp add: mod_eq_dvd_iff)
  then show ?thesis by (simp add: mod_eq_0_iff_dvd)
qed

lemma wrap64_shift_neq:
  assumes "inRange i" "0 < j" "j < 2 ^ 64"
  shows "wrap64 (i + j) \<noteq> i"
proof
  assume "wrap64 (i + j) = i"
  with assms(1) have "wrap64 (i + j) = wrap64 i" by (simp add: wrap64_id)
  from wrap64_eqD [OF this] have "j mod 2 ^ 64 = 0" by simp
  with assms(2,3) show False by simp
qed

lemma wrap64_small: "0 < x \<Longrightarrow> x \<le> maxInt \<Longrightarrow> wrap64 x = x"
  by (rule wrap64_id) (simp add: minInt_def)

subsection \<open>One call\<close>

lemma exec_op_state:
  "snd (exec_op s c) =
     (case c of
        OpCreate name now \<Rightarrow>
          s\<lparr>items := (items s)(nextID s \<mapsto> \<lparr>ID = nextID s, Name = name, CreatedAt = now\<rparr>),
            nextID := wrap64 (nextID s + 1)\<rparr>
      | OpDelete i \<Rightarrow> (case items s i of None \<Rightarrow> s | Some _ \<Rightarrow> s\<lparr>items := (items s)(i := None)\<rparr>)
      | _ \<Rightarrow> s)"
  by (cases c) (simp_all add: Create_def Get_def Delete_def List_def Let_def split: option.splits)

lemma exec_op_created: "created_ids [fst (exec_op s c)] = (if is_create c then [nextID s] else [])"
  by (cases c) (simp_all add: Create_def Get_def Delete_def List_def Let_def split: option.splits)

lemma exec_op_nextID:
  "nextID (snd (exec_op s c)) = (if is_create c then wrap64 (nextID s + 1) else nextID s)"
  unfolding exec_op_state by (simp split: op.splits option.splits)

lemma exec_op_items:
  "items (snd (exec_op s c)) =
     (case c of
        OpCreate name now \<Rightarrow> (items s)(nextID s \<mapsto> \<lparr>ID = nextID s, Name = name, CreatedAt = now\<rparr>)
      | OpDelete i \<Rightarrow> (items s)(i := None)
      | _ \<Rightarrow> items s)"
  unfolding exec_op_state by (auto split: op.splits option.splits)

lemma exec_Cons:
  "exec s (c # cs) = (fst (exec_op s c) # fst (exec (snd (exec_op s c)) cs),
                      snd (exec (snd (exec_op s c)) cs))"
  by (simp add: split_beta)

lemma created_ids_Cons: "created_ids (r # rs) = created_ids [r] @ created_ids rs"
  by (cases r) auto

lemma issue_Suc:
  assumes "is_create c"
  shows "issue (snd (exec_op s c)) j = issue s (Suc j)"
proof -
  have "issue (snd (exec_op s c)) j = wrap64 (wrap64 (nextID s + 1) + int j)"
    using assms by (simp add: exec_op_nextID)
  also have "\<dots> = wrap64 (nextID s + 1 + int j)" by (rule wrap64_add)
  also have "nextID s + 1 + int j = nextID s + int (Suc j)" by simp
  finally show ?thesis .
qed

lemma issue_same:
  "\<not> is_create c \<Longrightarrow> issue (snd (exec_op s c)) j = issue s j"
  by (simp add: exec_op_nextID)

lemma inRange_step: "inRange (nextID s) \<Longrightarrow> inRange (nextID (snd (exec_op s c)))"
  using wrap64_range by (simp add: exec_op_nextID)

subsection \<open>Sequences of calls\<close>

lemma exec_nextID:
  "inRange (nextID s) \<Longrightarrow> nextID (snd (exec s cs)) = issue s (creates cs)"
proof (induction cs arbitrary: s)
  case Nil
  then show ?case by (simp add: wrap64_id)
next
  case (Cons c cs)
  let ?s1 = "snd (exec_op s c)"
  have "nextID (snd (exec ?s1 cs)) = issue ?s1 (creates cs)"
    using Cons.prems by (intro Cons.IH inRange_step)
  then show ?case
    by (cases "is_create c") (simp_all add: exec_Cons issue_Suc issue_same del: exec.simps)
qed

lemma exec_inRange: "inRange (nextID s) \<Longrightarrow> inRange (nextID (snd (exec s cs)))"
  using wrap64_range by (simp add: exec_nextID)

lemma exec_created_ids:
  "inRange (nextID s) \<Longrightarrow> created_ids (fst (exec s cs)) = map (issue s) [0..<creates cs]"
proof (induction cs arbitrary: s)
  case Nil
  then show ?case by simp
next
  case (Cons c cs)
  let ?s1 = "snd (exec_op s c)"
  have ih: "created_ids (fst (exec ?s1 cs)) = map (issue ?s1) [0..<creates cs]"
    using Cons.prems by (intro Cons.IH inRange_step)
  have split: "created_ids (fst (exec s (c # cs))) =
      created_ids [fst (exec_op s c)] @ created_ids (fst (exec ?s1 cs))"
    by (simp add: exec_Cons created_ids_Cons [symmetric] del: exec.simps)
  show ?case
  proof (cases "is_create c")
    case True
    have "map (issue s) [0..<Suc (creates cs)] = issue s 0 # map (issue s \<circ> Suc) [0..<creates cs]"
      by (simp only: map_upt_Suc) simp
    moreover have "issue s 0 = nextID s" using Cons.prems by (simp add: wrap64_id)
    moreover have "map (issue s \<circ> Suc) [0..<creates cs] = map (issue ?s1) [0..<creates cs]"
      using True by (simp add: issue_Suc)
    ultimately show ?thesis using True ih split by (simp add: exec_op_created)
  next
    case False
    then show ?thesis using ih split by (simp add: exec_op_created issue_same)
  qed
qed

lemma own_id_step: "own_id s \<Longrightarrow> own_id (snd (exec_op s c))"
  unfolding exec_op_items by (auto split: op.splits if_splits)

lemma own_id_exec: "own_id s \<Longrightarrow> own_id (snd (exec s cs))"
proof (induction cs arbitrary: s)
  case Nil
  then show ?case by simp
next
  case (Cons c cs)
  from Cons.IH [OF own_id_step [OF Cons.prems]] show ?case
    by (simp add: exec_Cons del: exec.simps)
qed

lemma own_id_New: "own_id NewUserStore"
  by (simp add: NewUserStore_def)

lemma inRange_New: "inRange (nextID NewUserStore)"
  by (simp add: NewUserStore_def minInt_def maxInt_def)

lemma keeps_item_step:
  assumes "items s i = Some u" "c \<noteq> OpDelete i" "is_create c \<longrightarrow> nextID s \<noteq> i"
  shows "items (snd (exec_op s c)) i = Some u"
  using assms unfolding exec_op_items by (auto split: op.splits)

lemma keeps_absent_step:
  assumes "items s i = None" "is_create c \<longrightarrow> nextID s \<noteq> i"
  shows "items (snd (exec_op s c)) i = None"
  using assms unfolding exec_op_items by (auto split: op.splits)

lemma exec_keeps_item:
  assumes "inRange (nextID s)" "items s i = Some u" "OpDelete i \<notin> set cs"
    and "\<forall>j<creates cs. issue s j \<noteq> i"
  shows "items (snd (exec s cs)) i = Some u"
  using assms
proof (induction cs arbitrary: s)
  case Nil
  then show ?case by simp
next
  case (Cons c cs)
  let ?s1 = "snd (exec_op s c)"
  have first: "is_create c \<longrightarrow> nextID s \<noteq> i"
  proof
    assume "is_create c"
    then have "0 < creates (c # cs)" by simp
    with Cons.prems(4) have "issue s 0 \<noteq> i" by blast
    with Cons.prems(1) show "nextID s \<noteq> i" by (simp add: wrap64_id)
  qed
  have 1: "items ?s1 i = Some u"
    using Cons.prems(2) _ first by (rule keeps_item_step) (use Cons.prems(3) in auto)
  have 2: "\<forall>j<creates cs. issue ?s1 j \<noteq> i"
  proof (cases "is_create c")
    case True
    with Cons.prems(4) show ?thesis by (auto simp: issue_Suc)
  next
    case False
    with Cons.prems(4) show ?thesis by (auto simp: issue_same)
  qed
  have "items (snd (exec ?s1 cs)) i = Some u"
    using inRange_step [OF Cons.prems(1)] 1 _ 2 by (rule Cons.IH) (use Cons.prems(3) in auto)
  then show ?case by (simp add: exec_Cons del: exec.simps)
qed

lemma exec_keeps_absent:
  assumes "inRange (nextID s)" "items s i = None" "\<forall>j<creates cs. issue s j \<noteq> i"
  shows "items (snd (exec s cs)) i = None"
  using assms
proof (induction cs arbitrary: s)
  case Nil
  then show ?case by simp
next
  case (Cons c cs)
  let ?s1 = "snd (exec_op s c)"
  have first: "is_create c \<longrightarrow> nextID s \<noteq> i"
  proof
    assume "is_create c"
    then have "0 < creates (c # cs)" by simp
    with Cons.prems(3) have "issue s 0 \<noteq> i" by blast
    with Cons.prems(1) show "nextID s \<noteq> i" by (simp add: wrap64_id)
  qed
  have 1: "items ?s1 i = None" using Cons.prems(2) first by (rule keeps_absent_step)
  have 2: "\<forall>j<creates cs. issue ?s1 j \<noteq> i"
  proof (cases "is_create c")
    case True
    with Cons.prems(3) show ?thesis by (auto simp: issue_Suc)
  next
    case False
    with Cons.prems(3) show ?thesis by (auto simp: issue_same)
  qed
  have "items (snd (exec ?s1 cs)) i = None"
    using inRange_step [OF Cons.prems(1)] 1 2 by (rule Cons.IH)
  then show ?case by (simp add: exec_Cons del: exec.simps)
qed

lemma dom_step_subset:
  "dom (items (snd (exec_op s c))) \<subseteq> dom (items s) \<union> (if is_create c then {nextID s} else {})"
  unfolding exec_op_items by (auto split: op.splits if_splits)

lemma dom_step_nodelete:
  "\<not> is_delete c \<Longrightarrow>
   dom (items (snd (exec_op s c))) = dom (items s) \<union> (if is_create c then {nextID s} else {})"
  unfolding exec_op_items by (auto split: op.splits)

lemma exec_dom_subset:
  assumes "inRange (nextID s)"
  shows "dom (items (snd (exec s cs))) \<subseteq> dom (items s) \<union> issue s ` {..<creates cs}"
proof
  fix k
  assume k: "k \<in> dom (items (snd (exec s cs)))"
  show "k \<in> dom (items s) \<union> issue s ` {..<creates cs}"
  proof (rule ccontr)
    assume n: "k \<notin> dom (items s) \<union> issue s ` {..<creates cs}"
    then have "items s k = None" by blast
    moreover from n have "\<forall>j<creates cs. issue s j \<noteq> k" by blast
    ultimately have "items (snd (exec s cs)) k = None"
      using assms by (intro exec_keeps_absent)
    with k show False by blast
  qed
qed

lemma exec_dom_nodelete:
  assumes "inRange (nextID s)" "\<forall>c\<in>set cs. \<not> is_delete c"
  shows "dom (items (snd (exec s cs))) = dom (items s) \<union> issue s ` {..<creates cs}"
  using assms
proof (induction cs arbitrary: s)
  case Nil
  then show ?case by simp
next
  case (Cons c cs)
  let ?s1 = "snd (exec_op s c)"
  have ih: "dom (items (snd (exec ?s1 cs))) = dom (items ?s1) \<union> issue ?s1 ` {..<creates cs}"
    using inRange_step [OF Cons.prems(1)] by (rule Cons.IH) (use Cons.prems(2) in simp)
  have d: "dom (items ?s1) = dom (items s) \<union> (if is_create c then {nextID s} else {})"
    using Cons.prems(2) by (intro dom_step_nodelete) simp
  have n0: "issue s 0 = nextID s" using Cons.prems(1) by (simp add: wrap64_id)
  show ?case
  proof (cases "is_create c")
    case True
    have "issue ?s1 ` {..<creates cs} = issue s ` Suc ` {..<creates cs}"
      using True by (simp add: image_image issue_Suc)
    moreover have "{..<Suc (creates cs)} = insert 0 (Suc ` {..<creates cs})"
      by (auto simp: lessThan_Suc_eq_insert_0)
    ultimately have "issue s ` {..<creates (c # cs)} = insert (nextID s) (issue ?s1 ` {..<creates cs})"
      using True n0 by simp
    with ih d True show ?thesis by (simp add: exec_Cons del: exec.simps)
  next
    case False
    with ih d show ?thesis by (simp add: exec_Cons issue_same del: exec.simps)
  qed
qed

lemmas store_defs = NewUserStore_def Create_def Get_def Delete_def List_def Let_def wrap64_def

lemmas w_defs = w_cs1_def w_s1_def w_u_def w_s2_def w_cs2_def w_s3_def w_s4_def w_cs3_def w_s5_def w_cs_def

lemma exec_pair: "exec s cs = (rs, s') \<Longrightarrow> rs = fst (exec s cs) \<and> s' = snd (exec s cs)"
  by simp

lemma exec_append: "snd (exec s (xs @ ys)) = snd (exec (snd (exec s xs)) ys)"
proof (induction xs arbitrary: s)
  case Nil
  show ?case by simp
next
  case (Cons c xs)
  show ?case using Cons.IH [of "snd (exec_op s c)"]
    by (simp add: exec_Cons del: exec.simps)
qed

lemma exec_single: "snd (exec s [c]) = snd (exec_op s c)"
  by (simp add: split_beta)

lemma creates_replicate: "creates (replicate n (OpCreate name now)) = n"
  by simp

lemma replicate_last: "0 < n \<Longrightarrow> replicate n c = replicate (n - 1) c @ [c]"
  by (cases n) (simp_all add: replicate_append_same)

text \<open>After \<open>n\<close> calls of Create, the last of them has stored its record under its id.\<close>

lemma exec_replicate_Create:
  assumes "inRange (nextID s)" "0 < n"
  shows "items (snd (exec s (replicate n (OpCreate name now)))) (issue s (n - 1)) =
           Some \<lparr>ID = issue s (n - 1), Name = name, CreatedAt = now\<rparr>"
proof -
  let ?c = "OpCreate name now"
  let ?s' = "snd (exec s (replicate (n - 1) ?c))"
  have n: "nextID ?s' = issue s (n - 1)"
    using exec_nextID [OF assms(1), of "replicate (n - 1) ?c"] by simp
  have "snd (exec s (replicate n ?c)) = snd (exec_op ?s' ?c)"
    by (subst replicate_last [OF assms(2)]) (simp only: exec_append exec_single)
  moreover have "items (snd (exec_op ?s' ?c)) (issue s (n - 1)) =
      Some \<lparr>ID = issue s (n - 1), Name = name, CreatedAt = now\<rparr>"
    using n unfolding exec_op_items by simp
  ultimately show ?thesis by simp
qed

lemma upto_map_Suc: "map (\<lambda>j. 1 + int j) [0..<n] = [1..int n]"
proof (induction n)
  case 0
  show ?case by simp
next
  case (Suc n)
  have "[1..int (Suc n)] = [1..int n] @ [int n + 1]"
    using upto_rec2 [of 1 "int n + 1"] by (simp add: add.commute)
  with Suc show ?case by (simp add: add.commute)
qed

lemma issue_New_small:
  assumes "int n \<le> maxInt"
  shows "map (issue NewUserStore) [0..<n] = [1..int n]"
proof -
  have "map (issue NewUserStore) [0..<n] = map (\<lambda>j. 1 + int j) [0..<n]"
  proof (rule map_cong [OF refl])
    fix j assume "j \<in> set [0..<n]"
    then have "0 < 1 + int j" "1 + int j \<le> maxInt" using assms by auto
    then have "wrap64 (1 + int j) = 1 + int j" by (rule wrap64_small)
    then show "issue NewUserStore j = 1 + int j" by (simp add: NewUserStore_def)
  qed
  then show ?thesis by (simp add: upto_map_Suc)
qed

lemma issue_inj:
  assumes "issue s a = issue s b" "a < 2 ^ 64" "b < 2 ^ 64"
  shows "a = b"
proof -
  from wrap64_eqD [OF assms(1)] have d: "(2 ^ 64 :: int) dvd int a - int b"
    by (simp add: mod_eq_0_iff_dvd)
  show ?thesis
  proof (rule ccontr)
    assume "a \<noteq> b"
    then consider "a < b" | "b < a" by linarith
    then show False
    proof cases
      case 1
      from d have "(2 ^ 64 :: int) dvd int b - int a" by (simp add: dvd_diff_commute)
      moreover from 1 have "0 < int b - int a" by simp
      ultimately have "(2 ^ 64 :: int) \<le> int b - int a" by (rule zdvd_imp_le)
      with assms(3) show False by simp
    next
      case 2
      then have "0 < int a - int b" by simp
      with d have "(2 ^ 64 :: int) \<le> int a - int b" by (rule zdvd_imp_le)
      with assms(2) show False by simp
    qed
  qed
qed

lemma issue_after_Create:
  assumes "inRange i" "nextID s2 = wrap64 (i + 1)" "j < 2 ^ 64 - 1"
  shows "issue s2 j \<noteq> i"
proof -
  have "issue s2 j = wrap64 (i + (1 + int j))"
    using assms(2) wrap64_add [of "i + 1" "int j"] by (simp add: add.assoc)
  moreover have "wrap64 (i + (1 + int j)) \<noteq> i"
    using assms(1) by (rule wrap64_shift_neq) (use assms(3) in simp_all)
  ultimately show ?thesis by simp
qed

lemma Delete_present:
  assumes "items s i = Some u" "Delete s i = (ok, s')"
  shows "ok" "items s' i = None" "nextID s' = nextID s"
proof -
  have "Delete s i = (True, s\<lparr>items := (items s)(i := None)\<rparr>)"
    using assms(1) by (simp add: Delete_def)
  with assms(2) have "ok = True" "s' = s\<lparr>items := (items s)(i := None)\<rparr>" by simp_all
  then show "ok" "items s' i = None" "nextID s' = nextID s" by simp_all
qed

lemma Create_result:
  assumes "Create s name now = (u, s')"
  shows "u = \<lparr>ID = nextID s, Name = name, CreatedAt = now\<rparr>" "items s' (nextID s) = Some u"
    "nextID s' = wrap64 (nextID s + 1)"
  using assms by (auto simp: Create_def Let_def)

lemma Get_state: "snd (Get s i) = s"
  by (simp add: Get_def split: option.splits)

lemma List_state: "snd (List s ks) = s"
  by (simp add: List_def)

lemma Delete_iff_present: "fst (Delete s i) \<longleftrightarrow> snd (fst (Get s i))"
  by (simp add: Delete_def Get_def split: option.splits)

lemma Delete_false_unchanged: "\<not> fst (Delete s i) \<Longrightarrow> snd (Delete s i) = s"
  by (simp add: Delete_def split: option.splits)

lemma reachable_inRange: "exec NewUserStore cs = (rs, s) \<Longrightarrow> inRange (nextID s)"
  using exec_inRange [OF inRange_New, of cs] by simp

lemma reachable_own_id: "exec NewUserStore cs = (rs, s) \<Longrightarrow> own_id s"
  using own_id_exec [OF own_id_New, of cs] by simp

lemma creates_churn: "creates (churn i n) = n"
  unfolding churn_def by (induction n) simp_all

lemma churn_Delete:
  assumes "OpDelete d \<in> set (churn i n)"
  shows "\<exists>k<n. d = wrap64 (i + int k)"
  using assms unfolding churn_def by (auto split: if_splits)

lemma exec_keeps_present:
  assumes "items s i \<noteq> None" "OpDelete i \<notin> set cs"
  shows "items (snd (exec s cs)) i \<noteq> None"
  using assms
proof (induction cs arbitrary: s)
  case Nil
  then show ?case by simp
next
  case (Cons c cs)
  let ?s1 = "snd (exec_op s c)"
  have "items ?s1 i \<noteq> None"
    using Cons.prems unfolding exec_op_items by (auto split: op.splits)
  then have "items (snd (exec ?s1 cs)) i \<noteq> None"
    by (rule Cons.IH) (use Cons.prems(2) in auto)
  then show ?case by (simp add: exec_Cons del: exec.simps)
qed

lemma not_created:
  assumes "inRange (nextID s)" "i \<notin> set (created_ids (fst (exec s cs)))"
  shows "\<forall>j<creates cs. issue s j \<noteq> i"
  using assms(2) unfolding exec_created_ids [OF assms(1)] by auto

lemma exec_run_then_Create:
  assumes "inRange (nextID s)"
  shows "items (snd (exec s (cs @ [OpCreate name now]))) (issue s (creates cs)) =
           Some \<lparr>ID = issue s (creates cs), Name = name, CreatedAt = now\<rparr>"
proof -
  let ?s' = "snd (exec s cs)"
  have n: "nextID ?s' = issue s (creates cs)" using assms by (rule exec_nextID)
  have "snd (exec s (cs @ [OpCreate name now])) = snd (exec_op ?s' (OpCreate name now))"
    by (simp only: exec_append exec_single)
  moreover have "items (snd (exec_op ?s' (OpCreate name now))) (issue s (creates cs)) =
      Some \<lparr>ID = issue s (creates cs), Name = name, CreatedAt = now\<rparr>"
    using n unfolding exec_op_items by simp
  ultimately show ?thesis by simp
qed

lemma wrap_run_item:
  assumes "nextID s = 2"
  shows "items (snd (exec s wrap_run)) 1 = Some \<lparr>ID = 1, Name = ''b'', CreatedAt = 1\<rparr>"
proof -
  have r: "inRange (nextID s)" using assms by (simp add: minInt_def maxInt_def)
  have "int (2 ^ 64 - 1) = 2 ^ 64 - 1" by simp
  then have "issue s (2 ^ 64 - 1) = 1" using assms by (simp add: wrap64_def)
  then have "issue s (creates (churn 2 (2 ^ 64 - 1))) = 1" by (simp only: creates_churn)
  with exec_run_then_Create [OF r, of "churn 2 (2 ^ 64 - 1)" "''b''" 1]
  show ?thesis by (simp only: wrap_run_def)
qed

lemma wrap_run_no_Delete: "OpDelete 1 \<notin> set wrap_run"
proof
  assume "OpDelete 1 \<in> set wrap_run"
  then have "OpDelete 1 \<in> set (churn 2 (2 ^ 64 - 1))" by (simp add: wrap_run_def)
  then obtain k :: nat where k: "k < 2 ^ 64 - 1" "1 = wrap64 (2 + int k)"
    using churn_Delete by blast
  have "wrap64 (1 + (1 + int k)) \<noteq> 1"
    by (rule wrap64_shift_neq) (use k(1) in \<open>simp_all add: minInt_def maxInt_def\<close>)
  with k(2) show False by simp
qed

lemma w_u_eq: "w_u = \<lparr>ID = 2, Name = ''Bob'', CreatedAt = 11\<rparr>"
  by (simp add: w_defs store_defs)

lemma range_append_eq:
  "set ks \<subseteq> dom m \<Longrightarrow> range_append m out ks = out @ map (\<lambda>k. the (m k)) ks"
  by (induction ks arbitrary: out) (auto split: option.splits)

lemma List_ran: assumes out: "out = map (\<lambda>k. the (items s k)) ks" and ks: "set ks = dom (items s)"
  shows "set out = ran (items s)"
proof (rule set_eqI)
  fix u
  have "u \<in> set out \<longleftrightarrow> (\<exists>k\<in>dom (items s). the (items s k) = u)"
    by (auto simp: out ks)
  also have "\<dots> \<longleftrightarrow> (\<exists>k. items s k = Some u)"
    by (auto simp: dom_def)
  finally show "u \<in> set out \<longleftrightarrow> u \<in> ran (items s)" by (simp add: ran_def)
qed

lemma ran_Get: assumes inv: "own_id s"
  shows "u \<in> ran (items s) \<longleftrightarrow> fst (Get s (ID u)) = (u, True)"
proof
  assume "u \<in> ran (items s)"
  then obtain k where k: "items s k = Some u" by (auto simp: ran_def)
  with inv have "ID u = k" by blast
  with k show "fst (Get s (ID u)) = (u, True)" by (simp add: Get_def)
next
  assume a: "fst (Get s (ID u)) = (u, True)"
  show "u \<in> ran (items s)"
  proof (cases "items s (ID u)")
    case None
    with a show ?thesis by (simp add: Get_def)
  next
    case (Some v)
    with a have "v = u" by (simp add: Get_def)
    with Some show ?thesis by (auto simp: ran_def)
  qed
qed

lemma issue_inj_on: "n \<le> 2 ^ 64 \<Longrightarrow> inj_on (issue s) {..<n}"
  by (rule inj_onI) (rule issue_inj, simp_all)

lemma created_ids_length:
  "inRange (nextID s) \<Longrightarrow> length (created_ids (fst (exec s cs))) = creates cs"
  by (simp add: exec_created_ids)

lemma created_ids_wrap:
  assumes "creates cs = n" "int n = 2 ^ 63"
  shows "created_ids (fst (exec NewUserStore cs)) ! (n - 2) = 2 ^ 63 - 1"
    and "created_ids (fst (exec NewUserStore cs)) ! (n - 1) = - (2 ^ 63)"
    and "\<not> sorted_wrt (<) (created_ids (fst (exec NewUserStore cs)))"
proof -
  let ?ids = "created_ids (fst (exec NewUserStore cs))"
  have ids: "?ids = map (issue NewUserStore) [0..<n]"
    using exec_created_ids [OF inRange_New, of cs] assms(1) by simp
  have "2 \<le> int n" using assms(2) by simp
  then have ge: "2 \<le> n" by linarith
  have n2: "int (n - 2) = 2 ^ 63 - 2" using ge assms(2) by (simp add: of_nat_diff)
  have n1: "int (n - 1) = 2 ^ 63 - 1" using ge assms(2) by (simp add: of_nat_diff)
  have lt: "n - 2 < n" "n - 1 < n" "n - 2 < n - 1" using ge by simp_all
  have "?ids ! (n - 2) = issue NewUserStore (n - 2)"
    unfolding ids using lt(1) by simp
  also have "\<dots> = 2 ^ 63 - 1" using n2 by (simp add: NewUserStore_def wrap64_def)
  finally show a: "?ids ! (n - 2) = 2 ^ 63 - 1" .
  have "?ids ! (n - 1) = issue NewUserStore (n - 1)"
    unfolding ids using lt(2) by simp
  also have "\<dots> = - (2 ^ 63)" using n1 by (simp add: NewUserStore_def wrap64_def)
  finally show b: "?ids ! (n - 1) = - (2 ^ 63)" .
  show "\<not> sorted_wrt (<) ?ids"
  proof
    assume "sorted_wrt (<) ?ids"
    moreover have "n - 1 < length ?ids" using lt(2) by (simp add: ids)
    ultimately have "?ids ! (n - 2) < ?ids ! (n - 1)"
      using lt(3) by (simp only: sorted_wrt_iff_nth_less)
    then show False by (simp only: a b) simp
  qed
qed

subsection \<open>C1\<close>

text \<open>
  Claim C1 as stated fails on a long run, because the counter of the store is a Go
  \<^verbatim>\<open>int\<close> of 64 bits: let \<^verbatim>\<open>Create\<close> be called \<open>2^63\<close> times on a fresh store, each record
  deleted before the next is created. The call before the last returns the id \<open>2^63 - 1\<close>,
  the last one returns \<open>- 2^63\<close>: the ids returned are not increasing.
\<close>

theorem create_ids_wrap_counterexample:
  "created_ids (fst (exec NewUserStore (churn 1 (2 ^ 63)))) ! (2 ^ 63 - 2) = 2 ^ 63 - 1 \<and>
   created_ids (fst (exec NewUserStore (churn 1 (2 ^ 63)))) ! (2 ^ 63 - 1) = - (2 ^ 63) \<and>
   \<not> sorted_wrt (<) (created_ids (fst (exec NewUserStore (churn 1 (2 ^ 63)))))"
proof -
  have 1: "creates (churn 1 (2 ^ 63)) = 2 ^ 63" by (rule creates_churn)
  have 2: "int (2 ^ 63) = 2 ^ 63" by simp
  from created_ids_wrap [OF 1 2] show ?thesis by (intro conjI)
qed

text \<open>
  Claim C1, amended. Run any sequence of store calls on a fresh store. When \<^verbatim>\<open>Create\<close>
  was called at most \<open>2^63 - 1\<close> times, the ids that the calls returned are, in call
  order, 1, 2, ..., n: strictly increasing from 1. When it was called at most \<open>2^64\<close>
  times, the ids returned are pairwise different. Two records of the final store with the
  same id are stored under the same key, and every stored id was returned by a \<^verbatim>\<open>Create\<close>
  of the run. When \<^verbatim>\<open>Create\<close> was called fewer than \<open>2^64\<close> times, the next \<^verbatim>\<open>Create\<close>
  returns an id returned by none before it, whichever records were deleted in between.
\<close>

theorem create_ids_strictly_increasing:
  assumes "exec NewUserStore cs = (rs, s)"
  shows "(int (length (created_ids rs)) \<le> maxInt \<longrightarrow>
            created_ids rs = [1 .. int (length (created_ids rs))] \<and>
            sorted_wrt (<) (created_ids rs)) \<and>
         (length (created_ids rs) \<le> 2 ^ 64 \<longrightarrow> distinct (created_ids rs)) \<and>
         (\<forall>k k' u u'. items s k = Some u \<longrightarrow> items s k' = Some u' \<longrightarrow> ID u = ID u' \<longrightarrow> k = k') \<and>
         (\<forall>k u. items s k = Some u \<longrightarrow> ID u \<in> set (created_ids rs)) \<and>
         (length (created_ids rs) < 2 ^ 64 \<longrightarrow>
            (\<forall>name now. ID (fst (Create s name now)) \<notin> set (created_ids rs)))"
proof -
  let ?n = "creates cs"
  from assms have rs: "rs = fst (exec NewUserStore cs)" and s: "s = snd (exec NewUserStore cs)"
    by simp_all
  have ids: "created_ids rs = map (issue NewUserStore) [0..<?n]"
    unfolding rs using inRange_New by (rule exec_created_ids)
  have len: "length (created_ids rs) = ?n" by (simp add: ids)
  have own: "own_id s" using assms by (rule reachable_own_id)
  have nx: "nextID s = issue NewUserStore ?n"
    unfolding s using inRange_New by (rule exec_nextID)
  have a: "int (length (created_ids rs)) \<le> maxInt \<longrightarrow>
            created_ids rs = [1 .. int (length (created_ids rs))] \<and>
            sorted_wrt (<) (created_ids rs)"
  proof
    assume "int (length (created_ids rs)) \<le> maxInt"
    then have "int ?n \<le> maxInt" by (simp only: len)
    then have "created_ids rs = [1 .. int ?n]"
      unfolding ids by (rule issue_New_small)
    then show "created_ids rs = [1 .. int (length (created_ids rs))] \<and>
            sorted_wrt (<) (created_ids rs)"
      unfolding len by simp
  qed
  have b: "length (created_ids rs) \<le> 2 ^ 64 \<longrightarrow> distinct (created_ids rs)"
  proof
    assume "length (created_ids rs) \<le> 2 ^ 64"
    then have "?n \<le> 2 ^ 64" by (simp only: len)
    then have "inj_on (issue NewUserStore) {..<?n}" by (rule issue_inj_on)
    then have "inj_on (issue NewUserStore) (set [0..<?n])" by (simp add: lessThan_atLeast0)
    then show "distinct (created_ids rs)" unfolding ids by (simp only: distinct_map distinct_upt simp_thms)
  qed
  have c: "\<forall>k k' u u'. items s k = Some u \<longrightarrow> items s k' = Some u' \<longrightarrow> ID u = ID u' \<longrightarrow> k = k'"
  proof (intro allI impI)
    fix k k' u u'
    assume "items s k = Some u" "items s k' = Some u'" "ID u = ID u'"
    moreover from own have "\<And>k u. items s k = Some u \<Longrightarrow> ID u = k" by blast
    ultimately show "k = k'" by metis
  qed
  have d: "\<forall>k u. items s k = Some u \<longrightarrow> ID u \<in> set (created_ids rs)"
  proof (intro allI impI)
    fix k u
    assume k: "items s k = Some u"
    with own have "ID u = k" by blast
    moreover have "dom (items s) \<subseteq> dom (items NewUserStore) \<union> issue NewUserStore ` {..<?n}"
      unfolding s using inRange_New by (rule exec_dom_subset)
    then have "k \<in> issue NewUserStore ` {..<?n}"
      using k by (auto simp: NewUserStore_def)
    ultimately show "ID u \<in> set (created_ids rs)"
      unfolding ids by (simp add: lessThan_atLeast0)
  qed
  have e: "length (created_ids rs) < 2 ^ 64 \<longrightarrow>
            (\<forall>name now. ID (fst (Create s name now)) \<notin> set (created_ids rs))"
  proof (intro allI impI)
    fix name now
    assume "length (created_ids rs) < 2 ^ 64"
    then have n: "?n < 2 ^ 64" by (simp only: len)
    have "issue NewUserStore ?n \<notin> issue NewUserStore ` {..<?n}"
    proof
      assume "issue NewUserStore ?n \<in> issue NewUserStore ` {..<?n}"
      then obtain j where j: "j < ?n" "issue NewUserStore ?n = issue NewUserStore j" by blast
      from issue_inj [OF j(2)] n j(1) show False by simp
    qed
    moreover have "ID (fst (Create s name now)) = nextID s" by (simp add: Create_def Let_def)
    ultimately show "ID (fst (Create s name now)) \<notin> set (created_ids rs)"
      unfolding ids nx by (simp add: lessThan_atLeast0)
  qed
  from a b c d e show ?thesis by (intro conjI)
qed

theorem create_ids_strictly_increasing_witness:
  "int (length (created_ids (fst (exec NewUserStore (w_cs1 @ w_cs2))))) \<le> maxInt \<and>
   length (created_ids (fst (exec NewUserStore (w_cs1 @ w_cs2)))) < 2 ^ 64 \<and>
   created_ids (fst (exec NewUserStore (w_cs1 @ w_cs2))) = [1, 2] \<and>
   created_ids (fst (exec NewUserStore (w_cs1 @ w_cs2))) =
     [1 .. int (length (created_ids (fst (exec NewUserStore (w_cs1 @ w_cs2)))))] \<and>
   sorted_wrt (<) (created_ids (fst (exec NewUserStore (w_cs1 @ w_cs2)))) \<and>
   distinct (created_ids (fst (exec NewUserStore (w_cs1 @ w_cs2)))) \<and>
   ID (fst (Create (snd (exec NewUserStore (w_cs1 @ w_cs2))) ''Di'' 13))
     \<notin> set (created_ids (fst (exec NewUserStore (w_cs1 @ w_cs2))))"
proof -
  have e: "exec NewUserStore (w_cs1 @ w_cs2) =
      (fst (exec NewUserStore (w_cs1 @ w_cs2)), snd (exec NewUserStore (w_cs1 @ w_cs2)))"
    by simp
  have i: "created_ids (fst (exec NewUserStore (w_cs1 @ w_cs2))) = [1, 2]"
    by (simp add: w_defs store_defs)
  have l: "int (length (created_ids (fst (exec NewUserStore (w_cs1 @ w_cs2))))) \<le> maxInt"
    "length (created_ids (fst (exec NewUserStore (w_cs1 @ w_cs2)))) < 2 ^ 64"
    "length (created_ids (fst (exec NewUserStore (w_cs1 @ w_cs2)))) \<le> 2 ^ 64"
    unfolding i by (simp_all add: maxInt_def)
  from create_ids_strictly_increasing [OF e] i l show ?thesis by blast
qed

lemma shifted_issue_neq:
  assumes "inRange i" "nextID s = issue0 (a::nat)" "issue0 a = wrap64 (i + 1 + int a)"
    and "Suc (a + j) < 2 ^ 64"
  shows "issue s j \<noteq> i"
proof -
  have "issue s j = wrap64 (i + (1 + int a + int j))"
    using assms(2,3) wrap64_add [of "i + 1 + int a" "int j"] by (simp add: add.assoc)
  moreover have "wrap64 (i + (1 + int a + int j)) \<noteq> i"
    using assms(1) by (rule wrap64_shift_neq) (use assms(4) in simp_all)
  ultimately show ?thesis by simp
qed

lemma after_Create_issue:
  assumes "inRange (nextID s1)" "Create s1 name now = (u, s2)"
  shows "ID u = nextID s1" "items s2 (ID u) = Some u" "inRange (nextID s2)"
    "issue s2 a = wrap64 (ID u + 1 + int a)"
proof -
  from Create_result [OF assms(2)] have u: "u = \<lparr>ID = nextID s1, Name = name, CreatedAt = now\<rparr>"
    and i: "items s2 (nextID s1) = Some u" and n: "nextID s2 = wrap64 (nextID s1 + 1)" .
  show id: "ID u = nextID s1" by (simp add: u)
  show "items s2 (ID u) = Some u" unfolding id by (rule i)
  show "inRange (nextID s2)" unfolding n by (rule wrap64_range)
  show "issue s2 a = wrap64 (ID u + 1 + int a)" unfolding id n by (rule wrap64_add)
qed

subsection \<open>C3\<close>

text \<open>
  Claim C3 as stated fails on a long run: the store does create an id again, once its
  counter of 64 bits has gone round. On a fresh store \<^verbatim>\<open>Create\<close> returns the id 1 and
  \<^verbatim>\<open>Delete\<close> of 1 returns true. Then \<open>2^64 - 1\<close> records are created and deleted again one
  by one, and one more record is created: it receives the id 1, and \<^verbatim>\<open>Delete\<close> of 1
  returns true a second time.
\<close>

theorem delete_true_twice_counterexample:
  "fst (Create NewUserStore ''a'' 0) = \<lparr>ID = 1, Name = ''a'', CreatedAt = 0\<rparr> \<and>
   fst (Delete (snd (Create NewUserStore ''a'' 0)) 1) \<and>
   fst (Delete (snd (exec (snd (Delete (snd (Create NewUserStore ''a'' 0)) 1)) wrap_run)) 1)"
proof -
  let ?s4 = "snd (Delete (snd (Create NewUserStore ''a'' 0)) 1)"
  have 1: "fst (Create NewUserStore ''a'' 0) = \<lparr>ID = 1, Name = ''a'', CreatedAt = 0\<rparr>"
    by (simp add: store_defs)
  have 2: "fst (Delete (snd (Create NewUserStore ''a'' 0)) 1)"
    by (simp add: store_defs)
  have "nextID ?s4 = 2" by (simp add: store_defs)
  then have "items (snd (exec ?s4 wrap_run)) 1 = Some \<lparr>ID = 1, Name = ''b'', CreatedAt = 1\<rparr>"
    by (rule wrap_run_item)
  then have 3: "fst (Delete (snd (exec ?s4 wrap_run)) 1)" by (simp add: Delete_def)
  from 1 2 3 show ?thesis by (intro conjI)
qed

text \<open>
  Claim C3, amended. After any history, let \<^verbatim>\<open>Create\<close> return the record \<open>u\<close>. After any
  calls that do not delete that id, \<^verbatim>\<open>Delete\<close> of the id returns true and the record is
  gone. After any further calls in which no \<^verbatim>\<open>Create\<close> returns that id again, \<^verbatim>\<open>Delete\<close>
  of the id returns false and the store is as it was; the store does not return the id
  again as long as \<^verbatim>\<open>Create\<close> is called fewer than \<open>2^64\<close> times after the call that
  returned \<open>u\<close>. On every store \<open>t\<close> and id \<open>i\<close>, \<^verbatim>\<open>Delete\<close> returns true exactly when
  \<^verbatim>\<open>Get\<close> finds the id; a false return leaves the store unchanged, a true one removes
  that key and nothing else.
\<close>

theorem delete_true_once:
  assumes "exec NewUserStore cs1 = (rs1, s1)"
    and "Create s1 name now = (u, s2)"
    and "exec s2 cs2 = (rs2, s3)" and "OpDelete (ID u) \<notin> set cs2"
    and "Delete s3 (ID u) = (ok, s4)"
    and "exec s4 cs3 = (rs3, s5)"
    and "length (filter is_create cs2) + length (filter is_create cs3) < 2 ^ 64
         \<or> ID u \<notin> set (created_ids rs3)"
  shows "ok \<and> items s4 (ID u) = None \<and>
         Delete s5 (ID u) = (False, s5) \<and>
         fst (Delete t i) = snd (fst (Get t i)) \<and>
         (\<not> fst (Delete t i) \<longrightarrow> snd (Delete t i) = t) \<and>
         (fst (Delete t i) \<longrightarrow> items (snd (Delete t i)) = (items t)(i := None)
            \<and> nextID (snd (Delete t i)) = nextID t)"
proof -
  have r1: "inRange (nextID s1)" using assms(1) by (rule reachable_inRange)
  note c = after_Create_issue [OF r1 assms(2)]
  have ri: "inRange (ID u)" unfolding c(1) by (rule r1)
  from assms(3) have rs2: "rs2 = fst (exec s2 cs2)" and s3: "s3 = snd (exec s2 cs2)" by simp_all
  from assms(6) have rs3: "rs3 = fst (exec s4 cs3)" and s5: "s5 = snd (exec s4 cs3)" by simp_all
  have "items s2 (ID u) \<noteq> None" by (simp add: c(2))
  then have "items s3 (ID u) \<noteq> None" unfolding s3 using assms(4) by (rule exec_keeps_present)
  then obtain v where v: "items s3 (ID u) = Some v" by blast
  have ok: "ok" and u4: "items s4 (ID u) = None" and n4: "nextID s4 = nextID s3"
    using Delete_present [OF v assms(5)] by simp_all
  have n3: "nextID s3 = issue s2 (creates cs2)" unfolding s3 using c(3) by (rule exec_nextID)
  have r4: "inRange (nextID s4)" unfolding n4 n3 by (rule wrap64_range)
  have fresh: "\<forall>j<creates cs3. issue s4 j \<noteq> ID u"
    using assms(7)
  proof
    assume b: "creates cs2 + creates cs3 < 2 ^ 64"
    show ?thesis
    proof (intro allI impI)
      fix j assume "j < creates cs3"
      with b have "Suc (creates cs2 + j) < 2 ^ 64" by simp
      with ri n4 [unfolded n3] c(4) [of "creates cs2"] show "issue s4 j \<noteq> ID u"
        by (rule shifted_issue_neq)
    qed
  next
    assume "ID u \<notin> set (created_ids rs3)"
    then show ?thesis unfolding rs3 using r4 by (intro not_created)
  qed
  have "items s5 (ID u) = None" unfolding s5 using r4 u4 fresh by (rule exec_keeps_absent)
  then have d5: "Delete s5 (ID u) = (False, s5)" by (simp add: Delete_def)
  have g1: "fst (Delete t i) = snd (fst (Get t i))" by (rule Delete_iff_present)
  have g2: "\<not> fst (Delete t i) \<longrightarrow> snd (Delete t i) = t"
    by (simp add: Delete_false_unchanged)
  have g3: "fst (Delete t i) \<longrightarrow> items (snd (Delete t i)) = (items t)(i := None)
            \<and> nextID (snd (Delete t i)) = nextID t"
    by (cases "items t i") (simp_all add: Delete_def)
  from ok u4 d5 g1 g2 g3 show ?thesis by (intro conjI)
qed

theorem delete_true_once_witness:
  "OpDelete (ID w_u) \<notin> set w_cs2 \<and>
   length (filter is_create w_cs2) + length (filter is_create w_cs3) < 2 ^ 64 \<and>
   fst (Delete w_s3 (ID w_u)) \<and>
   items w_s4 (ID w_u) = None \<and> Delete w_s5 (ID w_u) = (False, w_s5)"
proof -
  have 1: "exec NewUserStore w_cs1 = (fst (exec NewUserStore w_cs1), w_s1)"
    by (simp add: w_s1_def)
  have 2: "Create w_s1 ''Bob'' 11 = (w_u, w_s2)" by (simp add: w_u_def w_s2_def)
  have 3: "exec w_s2 w_cs2 = (fst (exec w_s2 w_cs2), w_s3)" by (simp add: w_s3_def)
  have 4: "OpDelete (ID w_u) \<notin> set w_cs2" by (simp add: w_u_eq w_cs2_def)
  have 5: "Delete w_s3 (ID w_u) = (fst (Delete w_s3 (ID w_u)), w_s4)" by (simp add: w_s4_def)
  have 6: "exec w_s4 w_cs3 = (fst (exec w_s4 w_cs3), w_s5)" by (simp add: w_s5_def)
  have 7: "length (filter is_create w_cs2) + length (filter is_create w_cs3) < 2 ^ 64"
    by (simp add: w_cs2_def w_cs3_def)
  from delete_true_once [OF 1 2 3 4 5 6 disjI1 [OF 7]] 4 7 show ?thesis by blast
qed

subsection \<open>C4\<close>

text \<open>
  Claim C4 as stated fails on a long run. On a fresh store \<^verbatim>\<open>Create\<close> of the name
  \<^verbatim>\<open>a\<close> returns the id 1. Then \<open>2^64 - 1\<close> records are created and deleted again one by
  one, none of them with the id 1, and one more record is created: the counter of 64 bits
  has gone round, the record receives the id 1 and replaces the first one. \<^verbatim>\<open>Get\<close> of 1
  now finds the name \<^verbatim>\<open>b\<close> and another creation time, with no \<^verbatim>\<open>Delete\<close> of 1 in between.
\<close>

theorem get_after_wrap_counterexample:
  "fst (Create NewUserStore ''a'' 0) = \<lparr>ID = 1, Name = ''a'', CreatedAt = 0\<rparr> \<and>
   OpDelete 1 \<notin> set wrap_run \<and>
   fst (Get (snd (exec (snd (Create NewUserStore ''a'' 0)) wrap_run)) 1) =
     (\<lparr>ID = 1, Name = ''b'', CreatedAt = 1\<rparr>, True)"
proof -
  let ?s2 = "snd (Create NewUserStore ''a'' 0)"
  have 1: "fst (Create NewUserStore ''a'' 0) = \<lparr>ID = 1, Name = ''a'', CreatedAt = 0\<rparr>"
    by (simp add: store_defs)
  have "nextID ?s2 = 2" by (simp add: store_defs)
  then have "items (snd (exec ?s2 wrap_run)) 1 = Some \<lparr>ID = 1, Name = ''b'', CreatedAt = 1\<rparr>"
    by (rule wrap_run_item)
  then have 3: "fst (Get (snd (exec ?s2 wrap_run)) 1) = (\<lparr>ID = 1, Name = ''b'', CreatedAt = 1\<rparr>, True)"
    by (simp add: Get_def)
  from 1 wrap_run_no_Delete 3 show ?thesis by (intro conjI)
qed

text \<open>
  Claim C4, amended. After any history, let \<^verbatim>\<open>Create\<close> be called with \<open>name\<close> at the
  instant \<open>now\<close> and return \<open>u\<close>. After any calls that do not delete that id and in
  which no \<^verbatim>\<open>Create\<close> returns that id again (none does while \<^verbatim>\<open>Create\<close> is called fewer
  than \<open>2^64\<close> times), \<^verbatim>\<open>Get\<close> of the id finds the record \<open>u\<close> itself: same id, same
  name, same creation time. \<^verbatim>\<open>Get\<close> returns every store \<open>t\<close> as it received it.
\<close>

theorem get_after_create:
  assumes "exec NewUserStore cs1 = (rs1, s1)"
    and "Create s1 name now = (u, s2)"
    and "exec s2 cs2 = (rs2, s3)" and "OpDelete (ID u) \<notin> set cs2"
    and "length (filter is_create cs2) < 2 ^ 64 \<or> ID u \<notin> set (created_ids rs2)"
  shows "Get s3 (ID u) = ((u, True), s3) \<and>
         u = \<lparr>ID = nextID s1, Name = name, CreatedAt = now\<rparr> \<and>
         snd (Get t i) = t"
proof -
  have r1: "inRange (nextID s1)" using assms(1) by (rule reachable_inRange)
  note c = after_Create_issue [OF r1 assms(2)]
  have ri: "inRange (ID u)" unfolding c(1) by (rule r1)
  from assms(3) have rs2: "rs2 = fst (exec s2 cs2)" and s3: "s3 = snd (exec s2 cs2)" by simp_all
  have fresh: "\<forall>j<creates cs2. issue s2 j \<noteq> ID u"
    using assms(5)
  proof
    assume b: "creates cs2 < 2 ^ 64"
    show ?thesis
    proof (intro allI impI)
      fix j assume "j < creates cs2"
      with b have "j < 2 ^ 64 - 1" by simp
      with ri have "wrap64 (ID u + (1 + int j)) \<noteq> ID u"
        by (intro wrap64_shift_neq) simp_all
      then show "issue s2 j \<noteq> ID u" by (simp add: c(4) add.assoc)
    qed
  next
    assume "ID u \<notin> set (created_ids rs2)"
    then show ?thesis unfolding rs2 using c(3) by (intro not_created)
  qed
  have u3: "items s3 (ID u) = Some u"
    unfolding s3 using c(3) c(2) assms(4) fresh by (rule exec_keeps_item)
  then have "Get s3 (ID u) = ((u, True), s3)" by (simp add: Get_def)
  moreover have "u = \<lparr>ID = nextID s1, Name = name, CreatedAt = now\<rparr>"
    using assms(2) by (rule Create_result)
  ultimately show ?thesis using Get_state [of t i] by simp
qed

theorem get_after_create_witness:
  "OpDelete (ID w_u) \<notin> set w_cs2 \<and> length (filter is_create w_cs2) < 2 ^ 64 \<and>
   Get w_s3 (ID w_u) = ((w_u, True), w_s3) \<and>
   w_u = \<lparr>ID = 2, Name = ''Bob'', CreatedAt = 11\<rparr>"
proof -
  have 1: "exec NewUserStore w_cs1 = (fst (exec NewUserStore w_cs1), w_s1)"
    by (simp add: w_s1_def)
  have 2: "Create w_s1 ''Bob'' 11 = (w_u, w_s2)" by (simp add: w_u_def w_s2_def)
  have 3: "exec w_s2 w_cs2 = (fst (exec w_s2 w_cs2), w_s3)" by (simp add: w_s3_def)
  have 4: "OpDelete (ID w_u) \<notin> set w_cs2" by (simp add: w_u_eq w_cs2_def)
  have 5: "length (filter is_create w_cs2) < 2 ^ 64" by (simp add: w_cs2_def)
  from get_after_create [OF 1 2 3 4 disjI1 [OF 5]] 4 5 w_u_eq show ?thesis by blast
qed

subsection \<open>C5\<close>

text \<open>
  Claim C5. On a store reached from a fresh one, in whichever order \<open>ks\<close> the iteration
  visits the map, \<^verbatim>\<open>List\<close> leaves the store as it is and returns each stored record
  once: the records and their ids are pairwise different, the records returned are those
  of the map, which are those that \<^verbatim>\<open>Get\<close> finds. When the run had no \<^verbatim>\<open>Delete\<close>, their
  number is the number of calls of \<^verbatim>\<open>Create\<close>, as long as that is at most \<open>2^64\<close>, the
  number of keys that a Go \<^verbatim>\<open>int\<close> has.
\<close>

theorem list_returns_stored:
  assumes "exec NewUserStore cs = (rs, s)"
    and "range_order (items s) ks"
    and "List s ks = (out, s')"
  shows "s' = s \<and> distinct (map ID out) \<and> distinct out \<and> set out = ran (items s) \<and>
         (\<forall>u. u \<in> set out \<longleftrightarrow> fst (Get s (ID u)) = (u, True)) \<and>
         ((\<forall>c\<in>set cs. \<not> is_delete c) \<and> length (filter is_create cs) \<le> 2 ^ 64 \<longrightarrow>
            length out = length (filter is_create cs))"
proof -
  have own: "own_id s" using assms(1) by (rule reachable_own_id)
  from assms(1) have s: "s = snd (exec NewUserStore cs)" by simp
  from assms(2) have ks: "distinct ks" "set ks = dom (items s)" by (auto simp: range_order_def)
  from assms(3) have s': "s' = s" and out: "out = map (\<lambda>k. the (items s k)) ks"
    using range_append_eq [of ks "items s" "[]"] ks by (auto simp: List_def)
  have ids: "map ID out = ks"
  proof -
    have "map (ID \<circ> (\<lambda>k. the (items s k))) ks = ks"
    proof (rule map_idI)
      fix k assume "k \<in> set ks"
      then obtain v where "items s k = Some v" using ks(2) by blast
      with own show "(ID \<circ> (\<lambda>k. the (items s k))) k = k" by simp
    qed
    then show ?thesis by (simp add: out)
  qed
  have d: "distinct (map ID out)" using ids ks(1) by simp
  then have d': "distinct out" by (simp add: distinct_map)
  have r: "set out = ran (items s)" using out ks(2) by (rule List_ran)
  have g: "\<forall>u. u \<in> set out \<longleftrightarrow> fst (Get s (ID u)) = (u, True)"
    unfolding r using ran_Get [OF own] by blast
  have n: "(\<forall>c\<in>set cs. \<not> is_delete c) \<and> length (filter is_create cs) \<le> 2 ^ 64 \<longrightarrow>
            length out = length (filter is_create cs)"
  proof
    assume a: "(\<forall>c\<in>set cs. \<not> is_delete c) \<and> length (filter is_create cs) \<le> 2 ^ 64"
    then have nd: "\<forall>c\<in>set cs. \<not> is_delete c" and le: "creates cs \<le> 2 ^ 64" by simp_all
    have "dom (items s) = dom (items NewUserStore) \<union> issue NewUserStore ` {..<creates cs}"
      unfolding s using inRange_New nd by (rule exec_dom_nodelete)
    then have "set ks = issue NewUserStore ` {..<creates cs}"
      by (simp add: ks(2) NewUserStore_def)
    then have "card (set ks) = card {..<creates cs}"
      using issue_inj_on [OF le] by (simp only: card_image)
    then have "card (set ks) = creates cs" by simp
    then show "length out = length (filter is_create cs)"
      using distinct_card [OF ks(1)] by (simp add: out)
  qed
  from s' d d' r g n show ?thesis by (intro conjI)
qed

theorem list_returns_stored_witness:
  "range_order (items (snd (exec NewUserStore w_cs))) [2, 1] \<and>
   filter is_delete w_cs = [] \<and> length (filter is_create w_cs) \<le> 2 ^ 64 \<and>
   length (fst (List (snd (exec NewUserStore w_cs)) [2, 1])) = 2 \<and>
   distinct (map ID (fst (List (snd (exec NewUserStore w_cs)) [2, 1]))) \<and>
   snd (List (snd (exec NewUserStore w_cs)) [2, 1]) = snd (exec NewUserStore w_cs)"
proof -
  have 1: "exec NewUserStore w_cs = (fst (exec NewUserStore w_cs), snd (exec NewUserStore w_cs))"
    by simp
  have 2: "range_order (items (snd (exec NewUserStore w_cs))) [2, 1]"
    by (simp add: range_order_def w_cs_def store_defs insert_commute)
  have 3: "List (snd (exec NewUserStore w_cs)) [2, 1] =
    (fst (List (snd (exec NewUserStore w_cs)) [2, 1]), snd (List (snd (exec NewUserStore w_cs)) [2, 1]))"
    by simp
  have 4: "\<forall>c\<in>set w_cs. \<not> is_delete c" by (simp add: w_cs_def)
  have 5: "length (filter is_create w_cs) = 2" by (simp add: w_cs_def)
  have 6: "length (filter is_create w_cs) \<le> 2 ^ 64" unfolding 5 by simp
  have 7: "filter is_delete w_cs = []" by (simp add: w_cs_def)
  from list_returns_stored [OF 1 2 3] 2 4 5 6 7 show ?thesis by simp
qed

section \<open>Properties of the handlers\<close>

lemma Split_nonempty: "Split s sep \<noteq> []"
  by (induction s) (auto split: list.splits)

lemma Split_no_sep: "sep \<notin> set a \<Longrightarrow> Split a sep = [a]"
  by (induction a) auto

lemma Split_append_sep: "sep \<notin> set a \<Longrightarrow> Split (a @ sep # t) sep = a # Split t sep"
  by (induction a) (auto split: list.splits)

lemma hd_Split_append:
  assumes "sep \<notin> set a" "t = [] \<or> hd t = sep"
  shows "hd (Split (a @ t) sep) = a"
proof (cases t)
  case Nil
  with assms show ?thesis by (simp add: Split_no_sep)
next
  case (Cons c t')
  with assms have "t = sep # t'" by simp
  with assms(1) show ?thesis by (simp add: Split_append_sep)
qed

lemma Trim_keep:
  assumes "x \<noteq> []" "hd x \<notin> set cutset" "last x \<notin> set cutset"
  shows "Trim x cutset = x"
proof -
  from assms have 1: "dropWhile (\<lambda>c. c \<in> set cutset) x = x"
    by (cases x) auto
  from assms have "rev x \<noteq> []" "hd (rev x) \<notin> set cutset" by (simp_all add: hd_rev)
  then have 2: "dropWhile (\<lambda>c. c \<in> set cutset) (rev x) = rev x"
    by (cases "rev x") auto
  show ?thesis by (simp add: Trim_def 1 2)
qed

lemma Trim_first_segment:
  assumes "seg \<noteq> []" "CHR ''/'' \<notin> set seg" "tail = [] \<or> hd tail = CHR ''/''"
  shows "\<exists>tail'. Trim (seg @ tail) ''/'' = seg @ tail' \<and> (tail' = [] \<or> hd tail' = CHR ''/'')"
proof -
  let ?P = "\<lambda>c. c \<in> set ''/''"
  from assms(1,2) have hd: "\<not> ?P (hd seg)" by (cases seg) auto
  with assms(1) have 1: "dropWhile ?P (seg @ tail) = seg @ tail" by (cases seg) auto
  from assms(1) have "last seg \<in> set seg" by simp
  with assms(2) have lst: "\<not> ?P (last seg)" by auto
  have 2: "rev (dropWhile ?P (rev seg)) = seg"
    using assms(1) lst by (cases "rev seg") (auto simp: last_rev hd_rev dest!: arg_cong [where f = rev])
  show ?thesis
  proof (cases "\<forall>c\<in>set tail. ?P c")
    case True
    then have "dropWhile ?P (rev tail @ rev seg) = dropWhile ?P (rev seg)"
      by (simp add: dropWhile_append)
    then have "Trim (seg @ tail) ''/'' = seg @ []"
      unfolding Trim_def 1 using 2 by simp
    then show ?thesis by blast
  next
    case False
    then have ne: "dropWhile ?P (rev tail) \<noteq> []" by (auto simp: dropWhile_eq_Nil_conv)
    from False have "dropWhile ?P (rev tail @ rev seg) = dropWhile ?P (rev tail) @ rev seg"
      by (auto simp: dropWhile_append)
    then have t: "Trim (seg @ tail) ''/'' = seg @ rev (dropWhile ?P (rev tail))"
      unfolding Trim_def 1 by simp
    obtain ys where ys: "rev tail = takeWhile ?P (rev tail) @ dropWhile ?P (rev tail)" by simp
    then have "tail = rev (dropWhile ?P (rev tail)) @ rev (takeWhile ?P (rev tail))"
      by (metis rev_append rev_rev_ident)
    moreover have "rev (dropWhile ?P (rev tail)) \<noteq> []" using ne by simp
    ultimately have "hd (rev (dropWhile ?P (rev tail))) = hd tail"
      by (metis hd_append2)
    moreover from False have "tail \<noteq> []" by auto
    ultimately have "hd (rev (dropWhile ?P (rev tail))) = CHR ''/''" using assms(3) by simp
    with t show ?thesis by blast
  qed
qed

lemma first_segment:
  assumes "seg \<noteq> []" "CHR ''/'' \<notin> set seg" "tail = [] \<or> hd tail = CHR ''/''"
  shows "hd (Split (Trim (seg @ tail) ''/'') (CHR ''/'')) = seg"
proof -
  from Trim_first_segment [OF assms] obtain tail'
    where "Trim (seg @ tail) ''/'' = seg @ tail'" "tail' = [] \<or> hd tail' = CHR ''/''" by blast
  then show ?thesis using hd_Split_append [OF assms(2)] by simp
qed

lemmas status_defs = StatusOK_def StatusCreated_def StatusBadRequest_def StatusNotFound_def
  StatusMethodNotAllowed_def StatusInternalServerError_def

lemmas method_defs = MethodGet_def MethodPost_def MethodDelete_def

lemma Trim_slashes:
  assumes "seg \<noteq> []" "CHR ''/'' \<notin> set seg" "set tail \<subseteq> {CHR ''/''}"
  shows "Trim (seg @ tail) ''/'' = seg"
proof -
  let ?P = "\<lambda>c. c \<in> set ''/''"
  from assms(1,2) have "\<not> ?P (hd seg)" by (cases seg) auto
  with assms(1) have 1: "dropWhile ?P (seg @ tail) = seg @ tail" by (cases seg) auto
  from assms(1) have "last seg \<in> set seg" by simp
  with assms(2) have lst: "\<not> ?P (last seg)" by auto
  have 2: "rev (dropWhile ?P (rev seg)) = seg"
    using assms(1) lst by (cases "rev seg") (auto simp: last_rev hd_rev dest!: arg_cong [where f = rev])
  from assms(3) have "\<forall>c\<in>set tail. ?P c" by auto
  then have "dropWhile ?P (rev tail @ rev seg) = dropWhile ?P (rev seg)"
    by (simp add: dropWhile_append)
  then show ?thesis unfolding Trim_def 1 using 2 by simp
qed

lemma errorJSON_fields:
  "StatusCode (errorJSON w st code msg d) = st"
  "Written (errorJSON w st code msg d) =
     Written w @ [AMap ([(''error'', AString code), (''message'', msg)] @
                        (case d of None \<Rightarrow> [] | Some x \<Rightarrow> [(''details'', x)]))]"
  "Header (errorJSON w st code msg d) = (Header w)(''Content-Type'' \<mapsto> ''application/json'')"
  by (simp_all add: errorJSON_def writeJSON_def Let_def split: option.splits)

lemma requireMethods_False:
  assumes "Method r \<notin> set allowed"
  shows "requireMethods w r allowed =
     (False, errorJSON (w\<lparr>Header := (Header w)(''Allow'' \<mapsto> Join allowed '', '')\<rparr>) 405
        ''method_not_allowed'' (AString ''method not allowed'')
        (Some (AMap [(''method'', AString (Method r)), (''allow'', AStrings allowed)])))"
  using assms by (simp add: requireMethods_def list_ex_iff Let_def status_defs)

lemma requireMethods_True:
  assumes "Method r \<in> set allowed"
  shows "requireMethods w r allowed = (True, w)"
  using assms by (auto simp add: requireMethods_def list_ex_iff)

lemma HandleUsers_not_allowed:
  assumes "Method r \<noteq> ''GET''" "Method r \<noteq> ''POST''"
  shows "HandleUsers svc env w r =
     (errorJSON (w\<lparr>Header := (Header w)(''Allow'' \<mapsto> ''GET, POST'')\<rparr>) 405
        ''method_not_allowed'' (AString ''method not allowed'')
        (Some (AMap [(''method'', AString (Method r)), (''allow'', AStrings [''GET'', ''POST''])])), svc)"
proof -
  have "Method r \<notin> set [MethodGet, MethodPost]" using assms by (simp add: method_defs)
  from requireMethods_False [OF this, of w] show ?thesis
    by (simp add: HandleUsers_def method_defs)
qed

lemma HandleUserRoutes_short:
  assumes "length (URLPath r) \<le> 7"
  shows "HandleUserRoutes svc env w r =
     (errorJSON w 400 ''invalid_path'' (AString ''user id is required'') None, svc)"
  using assms by (simp add: HandleUserRoutes_def prefix_def Let_def status_defs)

lemma HandleUserRoutes_bad_id:
  assumes "URLPath r = ''/users/'' @ rest" "rest \<noteq> []"
    and "parsePositiveInt (hd (Split (Trim rest ''/'') (CHR ''/''))) = Inl e"
  shows "HandleUserRoutes svc env w r =
     (errorJSON w 400 ''invalid_path'' (AString ''user id must be a positive integer'') None, svc)"
  using assms by (simp add: HandleUserRoutes_def prefix_def Let_def status_defs)

lemma HandleUserRoutes_id:
  assumes "URLPath r = ''/users/'' @ rest" "rest \<noteq> []"
    and "Split (Trim rest ''/'') (CHR ''/'') = [seg]" "parsePositiveInt seg = Inr n"
    and "Method r \<noteq> ''GET''" "Method r \<noteq> ''DELETE''"
  shows "HandleUserRoutes svc env w r =
     (errorJSON (w\<lparr>Header := (Header w)(''Allow'' \<mapsto> ''GET, DELETE'')\<rparr>) 405
        ''method_not_allowed'' (AString ''method not allowed'')
        (Some (AMap [(''method'', AString (Method r)), (''allow'', AStrings [''GET'', ''DELETE''])])), svc)"
proof -
  have "Method r \<notin> set [MethodGet, MethodDelete]" using assms(5,6) by (simp add: method_defs)
  from requireMethods_False [OF this, of w] assms(1-4) show ?thesis
    by (simp add: HandleUserRoutes_def prefix_def Let_def method_defs)
qed

lemmas trim_defs = TrimSpace_def TrimLeftSpace.simps TrimRightSpace.simps leading_space_def
  trailing_space_def space_runes_def

lemmas atoi_defs = Atoi_def ParseUint_def isDigit_def digitVal_def maxUint64_def maxInt_def

lemmas scan_defs = step_def stateBeginValue_def stateBeginString_def stateEndValue_def endValue_def
  closeFrame_def pushParseState_def endString_def endNumber_def addByte_def reset_def isSpace_def
  maxNestingDepth_def hexVal_def

lemmas decode_defs = readJSON_def MaxBytesReader_def NewDecoder_def DisallowUnknownFields_def
  Decode_createUserRequest_def Decode_struct_def readValue_def unmarshal_createUserRequest_def
  unmarshal_struct_def isNameField_def toUpper_def saveError_def kindOf_def

lemma e4: "scan reset body_empty_name = Found (JObject [(''name'', JString [])]) []"
  by (simp add: body_empty_name_def scan_defs)

lemma e3: "readJSON w \<lparr>Method = ''POST'', URLPath = ''/users'', Body = body_empty_name\<rparr> \<lparr>reqName = []\<rparr> = (None, \<lparr>reqName = []\<rparr>)"
  by (simp add: body_empty_name_def decode_defs scan_defs)

lemma parsePositiveInt_Nil: "parsePositiveInt [] = Inl ErrSyntax"
  by (simp add: parsePositiveInt_def trim_defs Atoi_def)

subsection \<open>C7\<close>

text \<open>
  Claim C7. A request to \<^verbatim>\<open>/users\<close> whose method is neither GET nor POST, and a request
  to \<^verbatim>\<open>/users/{id}\<close> with an id that \<^verbatim>\<open>parsePositiveInt\<close> accepts whose method is neither
  GET nor DELETE, is answered 405 with the error code \<^verbatim>\<open>method_not_allowed\<close>; the
  allowed methods are in the header \<^verbatim>\<open>Allow\<close> and in the details of the body, and the
  service is returned as it was received.
\<close>

theorem method_not_allowed_advertises:
  "(Method r \<noteq> ''GET'' \<and> Method r \<noteq> ''POST'' \<longrightarrow>
      StatusCode (fst (HandleUsers svc env w r)) = 405 \<and>
      Header (fst (HandleUsers svc env w r)) ''Allow'' = Some ''GET, POST'' \<and>
      Written (fst (HandleUsers svc env w r)) =
        Written w @ [AMap [(''error'', AString ''method_not_allowed''),
                           (''message'', AString ''method not allowed''),
                           (''details'', AMap [(''method'', AString (Method r)),
                                               (''allow'', AStrings [''GET'', ''POST''])])]] \<and>
      snd (HandleUsers svc env w r) = svc) \<and>
   (URLPath r = ''/users/'' @ seg @ tail \<and> CHR ''/'' \<notin> set seg \<and> set tail \<subseteq> {CHR ''/''} \<and>
    parsePositiveInt seg = Inr n \<and> Method r \<noteq> ''GET'' \<and> Method r \<noteq> ''DELETE'' \<longrightarrow>
      StatusCode (fst (HandleUserRoutes svc env w r)) = 405 \<and>
      Header (fst (HandleUserRoutes svc env w r)) ''Allow'' = Some ''GET, DELETE'' \<and>
      Written (fst (HandleUserRoutes svc env w r)) =
        Written w @ [AMap [(''error'', AString ''method_not_allowed''),
                           (''message'', AString ''method not allowed''),
                           (''details'', AMap [(''method'', AString (Method r)),
                                               (''allow'', AStrings [''GET'', ''DELETE''])])]] \<and>
      snd (HandleUserRoutes svc env w r) = svc)"
proof (intro conjI impI)
  assume a: "Method r \<noteq> ''GET'' \<and> Method r \<noteq> ''POST''"
  then have h: "HandleUsers svc env w r =
     (errorJSON (w\<lparr>Header := (Header w)(''Allow'' \<mapsto> ''GET, POST'')\<rparr>) 405
        ''method_not_allowed'' (AString ''method not allowed'')
        (Some (AMap [(''method'', AString (Method r)), (''allow'', AStrings [''GET'', ''POST''])])), svc)"
    by (simp add: HandleUsers_not_allowed)
  show "StatusCode (fst (HandleUsers svc env w r)) = 405"
    "Header (fst (HandleUsers svc env w r)) ''Allow'' = Some ''GET, POST''"
    "Written (fst (HandleUsers svc env w r)) =
        Written w @ [AMap [(''error'', AString ''method_not_allowed''),
                           (''message'', AString ''method not allowed''),
                           (''details'', AMap [(''method'', AString (Method r)),
                                               (''allow'', AStrings [''GET'', ''POST''])])]]"
    "snd (HandleUsers svc env w r) = svc"
    unfolding h by (simp_all add: errorJSON_fields)
next
  assume a: "URLPath r = ''/users/'' @ seg @ tail \<and> CHR ''/'' \<notin> set seg \<and> set tail \<subseteq> {CHR ''/''} \<and>
    parsePositiveInt seg = Inr n \<and> Method r \<noteq> ''GET'' \<and> Method r \<noteq> ''DELETE''"
  then have seg: "seg \<noteq> []" using parsePositiveInt_Nil by auto
  with a have "Trim (seg @ tail) ''/'' = seg" by (simp add: Trim_slashes)
  with a have sp: "Split (Trim (seg @ tail) ''/'') (CHR ''/'') = [seg]" by (simp add: Split_no_sep)
  have h: "HandleUserRoutes svc env w r =
     (errorJSON (w\<lparr>Header := (Header w)(''Allow'' \<mapsto> ''GET, DELETE'')\<rparr>) 405
        ''method_not_allowed'' (AString ''method not allowed'')
        (Some (AMap [(''method'', AString (Method r)), (''allow'', AStrings [''GET'', ''DELETE''])])), svc)"
    by (rule HandleUserRoutes_id [where rest = "seg @ tail" and seg = seg and n = n])
       (use a seg sp in simp_all)
  show "StatusCode (fst (HandleUserRoutes svc env w r)) = 405"
    "Header (fst (HandleUserRoutes svc env w r)) ''Allow'' = Some ''GET, DELETE''"
    "Written (fst (HandleUserRoutes svc env w r)) =
        Written w @ [AMap [(''error'', AString ''method_not_allowed''),
                           (''message'', AString ''method not allowed''),
                           (''details'', AMap [(''method'', AString (Method r)),
                                               (''allow'', AStrings [''GET'', ''DELETE''])])]]"
    "snd (HandleUserRoutes svc env w r) = svc"
    unfolding h by (simp_all add: errorJSON_fields)
qed

lemma parsePositiveInt_1: "parsePositiveInt ''1'' = Inr 1"
  by (simp add: parsePositiveInt_def trim_defs atoi_defs)

theorem method_not_allowed_advertises_witness:
  "StatusCode (fst (HandleUsers svc0 env0 w0 put_users)) = 405 \<and>
   Header (fst (HandleUsers svc0 env0 w0 put_users)) ''Allow'' = Some ''GET, POST'' \<and>
   snd (HandleUsers svc0 env0 w0 put_users) = svc0 \<and>
   StatusCode (fst (HandleUserRoutes svc0 env0 w0 put_user1)) = 405 \<and>
   Header (fst (HandleUserRoutes svc0 env0 w0 put_user1)) ''Allow'' = Some ''GET, DELETE'' \<and>
   snd (HandleUserRoutes svc0 env0 w0 put_user1) = svc0"
proof -
  have 1: "Method put_users \<noteq> ''GET'' \<and> Method put_users \<noteq> ''POST''"
    by (simp add: put_users_def)
  have 2: "URLPath put_user1 = ''/users/'' @ ''1'' @ [] \<and> CHR ''/'' \<notin> set ''1'' \<and>
     set [] \<subseteq> {CHR ''/''} \<and> parsePositiveInt ''1'' = Inr 1 \<and>
     Method put_user1 \<noteq> ''GET'' \<and> Method put_user1 \<noteq> ''DELETE''"
    by (simp add: put_user1_def parsePositiveInt_1)
  from method_not_allowed_advertises [of put_users svc0 env0 w0] 1
  have a: "StatusCode (fst (HandleUsers svc0 env0 w0 put_users)) = 405 \<and>
   Header (fst (HandleUsers svc0 env0 w0 put_users)) ''Allow'' = Some ''GET, POST'' \<and>
   snd (HandleUsers svc0 env0 w0 put_users) = svc0" by blast
  from method_not_allowed_advertises [of put_user1 svc0 env0 w0 "''1''" "[]" 1] 2
  have b: "StatusCode (fst (HandleUserRoutes svc0 env0 w0 put_user1)) = 405 \<and>
   Header (fst (HandleUserRoutes svc0 env0 w0 put_user1)) ''Allow'' = Some ''GET, DELETE'' \<and>
   snd (HandleUserRoutes svc0 env0 w0 put_user1) = svc0" by blast
  from a b show ?thesis by blast
qed

subsection \<open>The segment that is read as the id\<close>

lemma Trim_dropWhile: "Trim (dropWhile (\<lambda>c. c \<in> set cutset) s) cutset = Trim s cutset"
  by (simp add: Trim_def)

lemma hd_Split_Trim:
  "hd (Split (Trim x ''/'') (CHR ''/'')) =
     takeWhile (\<lambda>c. c \<noteq> CHR ''/'') (dropWhile (\<lambda>c. c = CHR ''/'') x)"
proof -
  let ?rest = "dropWhile (\<lambda>c. c = CHR ''/'') x"
  let ?seg = "takeWhile (\<lambda>c. c \<noteq> CHR ''/'') ?rest"
  let ?tail = "dropWhile (\<lambda>c. c \<noteq> CHR ''/'') ?rest"
  have t: "Trim x ''/'' = Trim ?rest ''/''"
    using Trim_dropWhile [of "''/''" x] by simp
  show ?thesis
  proof (cases "?rest = []")
    case True
    show ?thesis unfolding t True by (simp add: Trim_def)
  next
    case False
    then have "hd ?rest \<noteq> CHR ''/''" using hd_dropWhile [of "\<lambda>c. c = CHR ''/''" x] by blast
    with False have seg: "?seg \<noteq> []" by (cases ?rest) auto
    have ns: "CHR ''/'' \<notin> set ?seg" using set_takeWhileD by fastforce
    have tl: "?tail = [] \<or> hd ?tail = CHR ''/''"
      using hd_dropWhile [of "\<lambda>c. c \<noteq> CHR ''/''" ?rest] by blast
    have "hd (Split (Trim (?seg @ ?tail) ''/'') (CHR ''/'')) = ?seg"
      using seg ns tl by (rule first_segment)
    then show ?thesis by (simp add: t)
  qed
qed

lemma HandleUserRoutes_segment:
  "hd (Split (Trim (drop (length prefix) path) ''/'') (CHR ''/'')) = first_nonempty_segment path"
proof -
  have "length prefix = 7" by (simp add: prefix_def)
  then show ?thesis by (simp only: hd_Split_Trim first_nonempty_segment_def)
qed

text \<open>
  The notion read on a path: after the prefix and any number of slashes comes the segment,
  then nothing or a slash and more; an empty segment means that nothing but slashes
  followed the prefix.
\<close>

lemma first_nonempty_segment_path:
  assumes "set slashes \<subseteq> {CHR ''/''}" "CHR ''/'' \<notin> set seg"
    and "tail = [] \<or> hd tail = CHR ''/''" "seg = [] \<longrightarrow> tail = []"
  shows "first_nonempty_segment (''/users/'' @ slashes @ seg @ tail) = seg"
proof -
  have 1: "dropWhile (\<lambda>c. c = CHR ''/'') (slashes @ seg @ tail) = seg @ tail"
  proof (cases seg)
    case Nil
    with assms(4) have "tail = []" by simp
    with Nil assms(1) show ?thesis by (auto simp: dropWhile_eq_Nil_conv)
  next
    case (Cons c seg')
    with assms(2) have "c \<noteq> CHR ''/''" by auto
    with Cons assms(1) show ?thesis by (auto simp: dropWhile_append)
  qed
  have 2: "takeWhile (\<lambda>c. c \<noteq> CHR ''/'') (seg @ tail) = seg"
  proof (cases tail)
    case Nil
    with assms(2) show ?thesis by (simp add: takeWhile_eq_all_conv) metis
  next
    case (Cons c tail')
    with assms(3) have "c = CHR ''/''" by simp
    with Cons assms(2) show ?thesis
      by (simp add: takeWhile_append1 takeWhile_tail) (metis takeWhile_tail append_Nil2 takeWhile.simps(1))
  qed
  show ?thesis by (simp add: first_nonempty_segment_def 1 2)
qed

lemma first_nonempty_segment_short:
  "length path \<le> 7 \<Longrightarrow> first_nonempty_segment path = []"
  by (simp add: first_nonempty_segment_def)

lemma invalid_segment:
  assumes "parsePositiveInt (first_nonempty_segment (URLPath r)) = Inl e"
  shows "HandleUserRoutes svc env w r =
     (errorJSON w 400 ''invalid_path''
        (AString (if length (URLPath r) \<le> 7 then ''user id is required''
                  else ''user id must be a positive integer'')) None, svc)"
proof (cases "length (URLPath r) \<le> 7")
  case True
  from HandleUserRoutes_short [OF this] True show ?thesis by simp
next
  case False
  with assms show ?thesis
    by (simp add: HandleUserRoutes_def Let_def HandleUserRoutes_segment status_defs)
       (simp add: prefix_def)
qed

lemma parsePositiveInt_abc: "parsePositiveInt ''abc'' = Inl ErrSyntax"
  by (simp add: parsePositiveInt_def trim_defs atoi_defs)

lemma parsePositiveInt_0: "parsePositiveInt ''0'' = Inl ErrSyntax"
  by (simp add: parsePositiveInt_def trim_defs atoi_defs)

lemma parsePositiveInt_neg: "parsePositiveInt ''-3'' = Inl ErrSyntax"
  by (simp add: parsePositiveInt_def trim_defs atoi_defs)

lemma parsePositiveInt_5: "parsePositiveInt ''5'' = Inr 5"
  by (simp add: parsePositiveInt_def trim_defs atoi_defs)

lemma TrimSpace_Nil: "TrimSpace [] = []"
  by (simp add: trim_defs)

lemma Split3:
  assumes "CHR ''/'' \<notin> set a" "CHR ''/'' \<notin> set b" "CHR ''/'' \<notin> set c"
  shows "Split (a @ CHR ''/'' # b @ CHR ''/'' # c) (CHR ''/'') = [a, b, c]"
  using assms by (simp add: Split_append_sep Split_no_sep)

lemma segment_abc: "first_nonempty_segment ''/users/abc'' = ''abc''"
  by (simp add: first_nonempty_segment_def)

lemma slash5_served:
  assumes "URLPath r = ''/users//5''"
  shows "Split (drop 7 (URLPath r)) (CHR ''/'') = ['''', ''5'']"
    and "Split (Trim (drop (length prefix) (URLPath r)) ''/'') (CHR ''/'') = [''5'']"
  using assms by (simp_all add: prefix_def Trim_def)

subsection \<open>C6\<close>

text \<open>
  Claim C6 as stated fails when slashes follow the prefix: in \<^verbatim>\<open>GET /users//5\<close> the first
  segment below \<^verbatim>\<open>/users/\<close> is empty, which \<^verbatim>\<open>parsePositiveInt\<close> rejects, but
  \<^verbatim>\<open>strings.Trim\<close> removes the slash before the path is split: the request is served
  as the one for the user 5, \<^verbatim>\<open>GetUser\<close> is called, and the answer is 404.
\<close>

theorem invalid_id_segment_rejected_counterexample:
  "hd (Split (drop 7 (URLPath get_slash5)) (CHR ''/'')) = [] \<and>
   parsePositiveInt [] = Inl ErrSyntax \<and>
   StatusCode (fst (HandleUserRoutes svc0 env0 w0 get_slash5)) = 404 \<and>
   calls (snd (HandleUserRoutes svc0 env0 w0 get_slash5)) = [CallGetUser 5]"
proof -
  have u: "URLPath get_slash5 = ''/users//5''" by (simp add: get_slash5_def)
  have 1: "hd (Split (drop 7 (URLPath get_slash5)) (CHR ''/'')) = []"
    by (simp add: slash5_served(1) [OF u])
  have m: "Method get_slash5 = MethodGet" by (simp add: get_slash5_def method_defs)
  have rm: "requireMethods w0 get_slash5 [MethodGet, MethodDelete] = (True, w0)"
    by (rule requireMethods_True) (simp add: m)
  have g: "GetUser svc0 5 = (Inl notFound, svc0\<lparr>calls := [CallGetUser 5]\<rparr>)"
    by (simp add: GetUser_def svc0_def NewUserService_def NewUserStore_def Get_def Let_def)
  have "HandleUserRoutes svc0 env0 w0 get_slash5 =
      (writeAppError w0 notFound, svc0\<lparr>calls := [CallGetUser 5]\<rparr>)"
    by (simp add: HandleUserRoutes_def Let_def slash5_served(2) [OF u] parsePositiveInt_5 rm m g)
       (simp add: u prefix_def)
  then show ?thesis
    using 1 parsePositiveInt_Nil
    by (simp add: writeAppError_def notFound_def errorJSON_fields status_defs)
qed

text \<open>
  Claim C6, amended. The handler reads as the id the first segment below \<^verbatim>\<open>/users/\<close>
  that is not empty (the empty segment when nothing but slashes follows the prefix).
  Whenever \<^verbatim>\<open>parsePositiveInt\<close> rejects that segment, whatever the rest of the request,
  the handler answers 400 with the error code \<^verbatim>\<open>invalid_path\<close> and returns the service
  as it received it: no call of the service is recorded and the store is unchanged.
\<close>

theorem invalid_id_segment_rejected:
  assumes "parsePositiveInt (first_nonempty_segment (URLPath r)) = Inl e"
  shows "StatusCode (fst (HandleUserRoutes svc env w r)) = 400 \<and>
         Written (fst (HandleUserRoutes svc env w r)) =
           Written w @ [AMap [(''error'', AString ''invalid_path''),
                              (''message'', AString (if length (URLPath r) \<le> 7
                                   then ''user id is required''
                                   else ''user id must be a positive integer''))]] \<and>
         snd (HandleUserRoutes svc env w r) = svc \<and>
         calls (snd (HandleUserRoutes svc env w r)) = calls svc \<and>
         store (snd (HandleUserRoutes svc env w r)) = store svc"
  unfolding invalid_segment [OF assms] by (simp add: errorJSON_fields)

theorem invalid_id_segment_rejected_witness:
  "parsePositiveInt (first_nonempty_segment (URLPath get_abc)) = Inl ErrSyntax \<and>
   StatusCode (fst (HandleUserRoutes svc0 env0 w0 get_abc)) = 400 \<and>
   Written (fst (HandleUserRoutes svc0 env0 w0 get_abc)) =
     [AMap [(''error'', AString ''invalid_path''),
            (''message'', AString ''user id must be a positive integer'')]] \<and>
   calls (snd (HandleUserRoutes svc0 env0 w0 get_abc)) = []"
proof -
  have 1: "parsePositiveInt (first_nonempty_segment (URLPath get_abc)) = Inl ErrSyntax"
    by (simp add: get_abc_def segment_abc parsePositiveInt_abc)
  from invalid_id_segment_rejected [OF 1, of svc0 env0 w0] 1
  show ?thesis by (simp add: w0_def svc0_def NewUserService_def get_abc_def)
qed

lemma TrimSpace_nonempty: "TrimSpace s \<noteq> [] \<Longrightarrow> s \<noteq> []"
  using TrimSpace_Nil by auto

subsection \<open>C9\<close>

text \<open>
  Claim C9 as stated fails in both halves. The id is not read from the first segment
  when that is empty: \<^verbatim>\<open>PUT /users//5\<close> is served as the path of the user 5 and answered
  405, not 400. And an order id that is empty before trimming is not seen: the path of
  \<^verbatim>\<open>GET /users/5/orders/\<close> loses its last slash to \<^verbatim>\<open>strings.Trim\<close>, has two segments,
  and is answered 404 \<^verbatim>\<open>not_found\<close>.
\<close>

theorem path_validation_first_counterexample:
  "hd (Split (drop 7 (URLPath put_slash5)) (CHR ''/'')) = [] \<and>
   parsePositiveInt [] = Inl ErrSyntax \<and>
   StatusCode (fst (HandleUserRoutes svc0 env0 w0 put_slash5)) = 405 \<and>
   Header (fst (HandleUserRoutes svc0 env0 w0 put_slash5)) ''Allow'' = Some ''GET, DELETE'' \<and>
   URLPath get_orders_none = ''/users/'' @ ''5'' @ ''/orders/'' @ [] \<and>
   Method get_orders_none = ''GET'' \<and> parsePositiveInt ''5'' = Inr 5 \<and> TrimSpace [] = [] \<and>
   StatusCode (fst (HandleUserRoutes svc0 env0 w0 get_orders_none)) = 404 \<and>
   Written (fst (HandleUserRoutes svc0 env0 w0 get_orders_none)) =
     [AMap [(''error'', AString ''not_found''), (''message'', AString ''resource not found''),
            (''details'', AMap [(''path'', AString ''/users/5/orders/'')])]]"
proof -
  have u: "URLPath put_slash5 = ''/users//5''" by (simp add: put_slash5_def)
  have 1: "hd (Split (drop 7 (URLPath put_slash5)) (CHR ''/'')) = []"
    by (simp add: slash5_served(1) [OF u])
  have "HandleUserRoutes svc0 env0 w0 put_slash5 =
     (errorJSON (w0\<lparr>Header := (Header w0)(''Allow'' \<mapsto> ''GET, DELETE'')\<rparr>) 405
        ''method_not_allowed'' (AString ''method not allowed'')
        (Some (AMap [(''method'', AString (Method put_slash5)),
                     (''allow'', AStrings [''GET'', ''DELETE''])])), svc0)"
    by (rule HandleUserRoutes_id [where rest = "''/5''" and seg = "''5''" and n = 5])
       (simp_all add: put_slash5_def Trim_def parsePositiveInt_5)
  then have 2: "StatusCode (fst (HandleUserRoutes svc0 env0 w0 put_slash5)) = 405"
    and 3: "Header (fst (HandleUserRoutes svc0 env0 w0 put_slash5)) ''Allow'' = Some ''GET, DELETE''"
    by (simp_all add: errorJSON_fields)
  have "Split (Trim (drop (length prefix) (URLPath get_orders_none)) ''/'') (CHR ''/'') = [''5'', ''orders'']"
    by (simp add: get_orders_none_def prefix_def Trim_def)
  then have "HandleUserRoutes svc0 env0 w0 get_orders_none =
    (errorJSON w0 StatusNotFound ''not_found'' (AString ''resource not found'')
           (Some (AMap [(''path'', AString (URLPath get_orders_none))])), svc0)"
    by (simp add: HandleUserRoutes_def Let_def parsePositiveInt_5 subRoutes_def)
       (simp add: get_orders_none_def prefix_def)
  then have 4: "URLPath get_orders_none = ''/users/'' @ ''5'' @ ''/orders/'' @ [] \<and>
   Method get_orders_none = ''GET'' \<and> parsePositiveInt ''5'' = Inr 5 \<and> TrimSpace [] = [] \<and>
   StatusCode (fst (HandleUserRoutes svc0 env0 w0 get_orders_none)) = 404 \<and>
   Written (fst (HandleUserRoutes svc0 env0 w0 get_orders_none)) =
     [AMap [(''error'', AString ''not_found''), (''message'', AString ''resource not found''),
            (''details'', AMap [(''path'', AString ''/users/5/orders/'')])]]"
    by (simp add: errorJSON_fields parsePositiveInt_5 TrimSpace_Nil status_defs)
       (simp add: get_orders_none_def w0_def)
  from 1 parsePositiveInt_Nil 2 3 4 show ?thesis by (intro conjI) simp_all
qed

text \<open>
  Claim C9, amended. The handler reads as the id the first segment below \<^verbatim>\<open>/users/\<close>
  that is not empty (the empty segment when nothing but slashes follows the prefix).
  Whatever the method \<open>m\<close> of the request, when \<^verbatim>\<open>parsePositiveInt\<close> rejects that segment
  the answer is 400 \<^verbatim>\<open>invalid_path\<close> and the service is returned as it was received. A
  GET of \<^verbatim>\<open>/users/{id}/orders/{orderId}\<close> whose last segment is not empty and is white
  space only is answered 400 \<^verbatim>\<open>invalid_path\<close> without a call of the service, whether or
  not the user exists.
\<close>

theorem path_validation_first:
  "(parsePositiveInt (first_nonempty_segment (URLPath r)) = Inl e \<longrightarrow>
      HandleUserRoutes svc env w (r\<lparr>Method := m\<rparr>) =
        (errorJSON w 400 ''invalid_path''
           (AString (if length (URLPath r) \<le> 7 then ''user id is required''
                     else ''user id must be a positive integer'')) None, svc)) \<and>
   (URLPath r = ''/users/'' @ seg @ ''/orders/'' @ orderSeg \<and> CHR ''/'' \<notin> set seg \<and>
    parsePositiveInt seg = Inr n \<and> CHR ''/'' \<notin> set orderSeg \<and> orderSeg \<noteq> [] \<and>
    TrimSpace orderSeg = [] \<and> Method r = ''GET'' \<longrightarrow>
      HandleUserRoutes svc env w r =
        (errorJSON w 400 ''invalid_path'' (AString ''orderId is required'') None, svc))"
proof (intro conjI impI)
  assume "parsePositiveInt (first_nonempty_segment (URLPath r)) = Inl e"
  then have "parsePositiveInt (first_nonempty_segment (URLPath (r\<lparr>Method := m\<rparr>))) = Inl e"
    by simp
  from invalid_segment [OF this]
  show "HandleUserRoutes svc env w (r\<lparr>Method := m\<rparr>) =
        (errorJSON w 400 ''invalid_path''
           (AString (if length (URLPath r) \<le> 7 then ''user id is required''
                     else ''user id must be a positive integer'')) None, svc)"
    by simp
next
  assume a: "URLPath r = ''/users/'' @ seg @ ''/orders/'' @ orderSeg \<and> CHR ''/'' \<notin> set seg \<and>
    parsePositiveInt seg = Inr n \<and> CHR ''/'' \<notin> set orderSeg \<and> orderSeg \<noteq> [] \<and>
    TrimSpace orderSeg = [] \<and> Method r = ''GET''"
  let ?rest = "seg @ ''/orders/'' @ orderSeg"
  from a have seg: "seg \<noteq> []" using parsePositiveInt_Nil by auto
  from a have ne: "orderSeg \<noteq> []" and ns: "CHR ''/'' \<notin> set orderSeg" by simp_all
  from ne have "last orderSeg \<in> set orderSeg" by simp
  with ns have "last orderSeg \<noteq> CHR ''/''" by metis
  with ne have l: "last ?rest \<notin> set ''/''" by simp
  from seg a have h: "hd ?rest \<notin> set ''/''" by (cases seg) auto
  have t: "Trim ?rest ''/'' = ?rest" using _ h l by (rule Trim_keep) simp
  have "Split (seg @ CHR ''/'' # ''orders'' @ CHR ''/'' # orderSeg) (CHR ''/'') = [seg, ''orders'', orderSeg]"
    by (rule Split3) (use a in simp_all)
  then have sp: "Split (Trim ?rest ''/'') (CHR ''/'') = [seg, ''orders'', orderSeg]"
    unfolding t by simp
  have rm: "requireMethods w r [MethodGet] = (True, w)"
    by (rule requireMethods_True) (use a in \<open>simp add: method_defs\<close>)
  show "HandleUserRoutes svc env w r =
        (errorJSON w 400 ''invalid_path'' (AString ''orderId is required'') None, svc)"
    using a sp rm
    by (simp add: HandleUserRoutes_def prefix_def Let_def subRoutes_def status_defs)
qed

theorem path_validation_first_witness:
  "parsePositiveInt (first_nonempty_segment (URLPath get_abc)) = Inl ErrSyntax \<and>
   StatusCode (fst (HandleUserRoutes svc0 env0 w0 put_abc)) = 400 \<and>
   Written (fst (HandleUserRoutes svc0 env0 w0 put_abc)) =
     [AMap [(''error'', AString ''invalid_path''),
            (''message'', AString ''user id must be a positive integer'')]] \<and>
   parsePositiveInt ''5'' = Inr 5 \<and> TrimSpace '' '' = [] \<and>
   fst (GetUser svc0 5) = Inl notFound \<and>
   StatusCode (fst (HandleUserRoutes svc0 env0 w0 get_orders_blank)) = 400 \<and>
   Written (fst (HandleUserRoutes svc0 env0 w0 get_orders_blank)) =
     [AMap [(''error'', AString ''invalid_path''), (''message'', AString ''orderId is required'')]] \<and>
   calls (snd (HandleUserRoutes svc0 env0 w0 get_orders_blank)) = []"
proof -
  have 1: "parsePositiveInt (first_nonempty_segment (URLPath get_abc)) = Inl ErrSyntax"
    by (simp add: get_abc_def segment_abc parsePositiveInt_abc)
  have 2: "get_abc\<lparr>Method := ''PUT''\<rparr> = put_abc" by (simp add: get_abc_def put_abc_def)
  have l: "\<not> length (URLPath get_abc) \<le> 7" by (simp add: get_abc_def)
  have ts: "TrimSpace '' '' = []" by (simp add: trim_defs)
  have 3: "URLPath get_orders_blank = ''/users/'' @ ''5'' @ ''/orders/'' @ '' '' \<and>
    CHR ''/'' \<notin> set ''5'' \<and> parsePositiveInt ''5'' = Inr 5 \<and> CHR ''/'' \<notin> set '' '' \<and>
    '' '' \<noteq> [] \<and> TrimSpace '' '' = [] \<and> Method get_orders_blank = ''GET''"
    by (simp add: get_orders_blank_def parsePositiveInt_5 ts)
  have g: "fst (GetUser svc0 5) = Inl notFound"
    by (simp add: GetUser_def svc0_def NewUserService_def NewUserStore_def Get_def Let_def)
  from path_validation_first [of get_abc ErrSyntax svc0 env0 w0 "''PUT''"] 1 2 l
  have a: "HandleUserRoutes svc0 env0 w0 put_abc =
     (errorJSON w0 400 ''invalid_path'' (AString ''user id must be a positive integer'') None, svc0)"
    by simp
  from path_validation_first [of get_orders_blank _ svc0 env0 w0 _ "''5''" "'' ''" 5] 3
  have b: "HandleUserRoutes svc0 env0 w0 get_orders_blank =
     (errorJSON w0 400 ''invalid_path'' (AString ''orderId is required'') None, svc0)"
    by blast
  show ?thesis
    unfolding a b
    by (simp add: errorJSON_fields 1 parsePositiveInt_5 ts g)
       (simp add: w0_def svc0_def NewUserService_def)
qed

lemma CreateUser_empty:
  assumes "TrimSpace name = []"
  shows "CreateUser svc name now =
    (Inl (AppErr \<lparr>Status = 400, Code = ''validation_failed'',
                   Message = ''missing required fields'',
                   Details = Some (AStrings [''name is required''])\<rparr>),
     svc\<lparr>calls := calls svc @ [CallCreateUser name]\<rparr>)"
  using assms by (simp add: CreateUser_def Let_def status_defs)

lemma CreateUser_ok:
  assumes "TrimSpace name \<noteq> []"
  shows "CreateUser svc name now =
    (Inr \<lparr>ID = nextID (store svc), Name = TrimSpace name, CreatedAt = now\<rparr>,
     svc\<lparr>calls := calls svc @ [CallCreateUser name],
         store := snd (Create (store svc) (TrimSpace name) now)\<rparr>)"
  using assms by (simp add: CreateUser_def Let_def Create_def)

subsection \<open>C2\<close>

text \<open>
  Claim C2. \<^verbatim>\<open>CreateUser\<close> trims the name. When nothing is left it returns the
  validation error with status 400, code \<^verbatim>\<open>validation_failed\<close>, message
  \<^verbatim>\<open>missing required fields\<close> and details \<^verbatim>\<open>["name is required"]\<close>, and the store is as
  it was. Otherwise it returns a new user under the next id, whose name is the trimmed
  input, and \<^verbatim>\<open>Get\<close> finds that user in the store. A \<^verbatim>\<open>POST /users\<close> whose body decodes
  to a name with nothing left after trimming is answered with status 400 and exactly that
  error body, and the store is as it was.
\<close>

theorem create_user_validates_name:
  "(TrimSpace name = [] \<longrightarrow>
      fst (CreateUser svc name now) =
        Inl (AppErr \<lparr>Status = 400, Code = ''validation_failed'',
                      Message = ''missing required fields'',
                      Details = Some (AStrings [''name is required''])\<rparr>) \<and>
      store (snd (CreateUser svc name now)) = store svc) \<and>
   (TrimSpace name \<noteq> [] \<longrightarrow>
      fst (CreateUser svc name now) =
        Inr \<lparr>ID = nextID (store svc), Name = TrimSpace name, CreatedAt = now\<rparr> \<and>
      fst (Get (store (snd (CreateUser svc name now))) (nextID (store svc))) =
        (\<lparr>ID = nextID (store svc), Name = TrimSpace name, CreatedAt = now\<rparr>, True)) \<and>
   (Method r = ''POST'' \<and> readJSON w r \<lparr>reqName = []\<rparr> = (None, req) \<and>
    TrimSpace (reqName req) = [] \<longrightarrow>
      StatusCode (fst (HandleUsers svc env w r)) = 400 \<and>
      Written (fst (HandleUsers svc env w r)) =
        Written w @ [AMap [(''error'', AString ''validation_failed''),
                           (''message'', AString ''missing required fields''),
                           (''details'', AStrings [''name is required''])]] \<and>
      store (snd (HandleUsers svc env w r)) = store svc)"
proof (intro conjI impI)
  assume a: "TrimSpace name = []"
  show "fst (CreateUser svc name now) =
        Inl (AppErr \<lparr>Status = 400, Code = ''validation_failed'',
                      Message = ''missing required fields'',
                      Details = Some (AStrings [''name is required''])\<rparr>)"
    "store (snd (CreateUser svc name now)) = store svc"
    by (simp_all add: CreateUser_empty [OF a])
next
  assume a: "TrimSpace name \<noteq> []"
  show "fst (CreateUser svc name now) =
        Inr \<lparr>ID = nextID (store svc), Name = TrimSpace name, CreatedAt = now\<rparr>"
    by (simp add: CreateUser_ok [OF a])
  show "fst (Get (store (snd (CreateUser svc name now))) (nextID (store svc))) =
        (\<lparr>ID = nextID (store svc), Name = TrimSpace name, CreatedAt = now\<rparr>, True)"
    by (simp add: CreateUser_ok [OF a] Create_def Get_def Let_def)
next
  assume a: "Method r = ''POST'' \<and> readJSON w r \<lparr>reqName = []\<rparr> = (None, req) \<and>
    TrimSpace (reqName req) = []"
  have rm: "requireMethods w r [''GET'', ''POST''] = (True, w)"
    by (rule requireMethods_True) (use a in simp)
  from a have h: "HandleUsers svc env w r =
     (errorJSON w 400 ''validation_failed'' (AString ''missing required fields'')
        (Some (AStrings [''name is required''])),
      svc\<lparr>calls := calls svc @ [CallCreateUser (reqName req)]\<rparr>)"
    by (simp add: HandleUsers_def rm method_defs CreateUser_empty writeAppError_def)
  show "StatusCode (fst (HandleUsers svc env w r)) = 400"
    "Written (fst (HandleUsers svc env w r)) =
        Written w @ [AMap [(''error'', AString ''validation_failed''),
                           (''message'', AString ''missing required fields''),
                           (''details'', AStrings [''name is required''])]]"
    "store (snd (HandleUsers svc env w r)) = store svc"
    unfolding h by (simp_all add: errorJSON_fields)
qed

lemma readJSON_empty_name:
  "readJSON w0 post_empty_name \<lparr>reqName = []\<rparr> = (None, \<lparr>reqName = []\<rparr>)"
  by (simp add: post_empty_name_def body_empty_name_def decode_defs scan_defs)

lemma TrimSpace_Ada: "TrimSpace ''  Ada  '' = ''Ada''"
  by (simp add: trim_defs)

theorem create_user_validates_name_witness:
  "TrimSpace '' '' = [] \<and>
   fst (CreateUser svc0 '' '' 7) =
     Inl (AppErr \<lparr>Status = 400, Code = ''validation_failed'',
                   Message = ''missing required fields'',
                   Details = Some (AStrings [''name is required''])\<rparr>) \<and>
   store (snd (CreateUser svc0 '' '' 7)) = store svc0 \<and>
   TrimSpace ''  Ada  '' = ''Ada'' \<and>
   fst (CreateUser svc0 ''  Ada  '' 7) = Inr \<lparr>ID = 1, Name = ''Ada'', CreatedAt = 7\<rparr> \<and>
   fst (Get (store (snd (CreateUser svc0 ''  Ada  '' 7))) 1) =
     (\<lparr>ID = 1, Name = ''Ada'', CreatedAt = 7\<rparr>, True) \<and>
   readJSON w0 post_empty_name \<lparr>reqName = []\<rparr> = (None, \<lparr>reqName = []\<rparr>) \<and>
   StatusCode (fst (HandleUsers svc0 env0 w0 post_empty_name)) = 400 \<and>
   Written (fst (HandleUsers svc0 env0 w0 post_empty_name)) =
     [AMap [(''error'', AString ''validation_failed''),
            (''message'', AString ''missing required fields''),
            (''details'', AStrings [''name is required''])]] \<and>
   store (snd (HandleUsers svc0 env0 w0 post_empty_name)) = store svc0"
proof -
  have ts: "TrimSpace '' '' = []" by (simp add: trim_defs)
  have n: "nextID (store svc0) = 1" by (simp add: svc0_def NewUserService_def NewUserStore_def)
  have p: "Method post_empty_name = ''POST'' \<and>
      readJSON w0 post_empty_name \<lparr>reqName = []\<rparr> = (None, \<lparr>reqName = []\<rparr>) \<and>
      TrimSpace (reqName \<lparr>reqName = []\<rparr>) = []"
    by (simp add: readJSON_empty_name TrimSpace_Nil) (simp add: post_empty_name_def)
  from create_user_validates_name [where name = "'' ''" and svc = svc0 and now = 7] ts
  have a: "fst (CreateUser svc0 '' '' 7) =
     Inl (AppErr \<lparr>Status = 400, Code = ''validation_failed'',
                   Message = ''missing required fields'',
                   Details = Some (AStrings [''name is required''])\<rparr>) \<and>
   store (snd (CreateUser svc0 '' '' 7)) = store svc0" by blast
  from create_user_validates_name [where name = "''  Ada  ''" and svc = svc0 and now = 7] TrimSpace_Ada n
  have b: "fst (CreateUser svc0 ''  Ada  '' 7) = Inr \<lparr>ID = 1, Name = ''Ada'', CreatedAt = 7\<rparr> \<and>
   fst (Get (store (snd (CreateUser svc0 ''  Ada  '' 7))) 1) =
     (\<lparr>ID = 1, Name = ''Ada'', CreatedAt = 7\<rparr>, True)" by simp
  from create_user_validates_name [where r = post_empty_name and w = w0 and req = "\<lparr>reqName = []\<rparr>"
      and svc = svc0 and env = env0] p
  have c: "StatusCode (fst (HandleUsers svc0 env0 w0 post_empty_name)) = 400 \<and>
   Written (fst (HandleUsers svc0 env0 w0 post_empty_name)) =
     Written w0 @ [AMap [(''error'', AString ''validation_failed''),
            (''message'', AString ''missing required fields''),
            (''details'', AStrings [''name is required''])]] \<and>
   store (snd (HandleUsers svc0 env0 w0 post_empty_name)) = store svc0" by blast
  have w: "Written w0 = []" by (simp add: w0_def)
  from a b c ts TrimSpace_Ada readJSON_empty_name show ?thesis unfolding w by simp
qed

end
